theory Spec2Isabelle
  imports Main "HOL-Library.Word"
begin

unbundle bit_operations_syntax

section \<open>Machine types and failures\<close>

text \<open>
  The C++ sources work on \<^verbatim>\<open>uint8_t\<close>, \<^verbatim>\<open>uint32_t\<close> and \<^verbatim>\<open>uint64_t\<close>; they are modelled as
  words of that width, so that \<open>+\<close>, \<open>*\<close>, shifts and masks wrap as in the program.
  A \<^verbatim>\<open>std::vector\<close> is a list.  A thrown \<^verbatim>\<open>std::invalid_argument\<close> is the value
  \<open>Inl (InvalidArgument msg)\<close>; a read outside a vector (undefined behaviour in C++)
  is the value \<open>Inl OutOfBounds\<close>.
\<close>

type_synonym u8 = "8 word"
type_synonym u32 = "32 word"
type_synonym u64 = "64 word"

datatype failure = InvalidArgument string | OutOfBounds

section \<open>Color codec (color\_integration.cpp)\<close>

text \<open>
  \<^verbatim>\<open>encode_polynomial_as_colors\<close>: every coefficient is reduced modulo \<open>modulus\<close>
  (skipped when the modulus is 0) and pushed as four bytes, most significant first.
\<close>

definition reduce_coeff :: "u32 \<Rightarrow> u32 \<Rightarrow> u32" where
  "reduce_coeff modulus coeff = (if modulus \<noteq> 0 then coeff mod modulus else coeff)"

primrec encode_polynomial_as_colors :: "u32 list \<Rightarrow> u32 \<Rightarrow> u8 list" where
  "encode_polynomial_as_colors [] modulus = []"
| "encode_polynomial_as_colors (coeff # poly) modulus =
     ucast (drop_bit 24 (reduce_coeff modulus coeff) AND 0xFF) #
     ucast (drop_bit 16 (reduce_coeff modulus coeff) AND 0xFF) #
     ucast (drop_bit 8 (reduce_coeff modulus coeff) AND 0xFF) #
     ucast (reduce_coeff modulus coeff AND 0xFF) #
     encode_polynomial_as_colors poly modulus"

text \<open>The four bytes of a pixel, recombined and reduced (both decoders share this).\<close>

definition decode_coeff :: "u8 \<Rightarrow> u8 \<Rightarrow> u8 \<Rightarrow> u8 \<Rightarrow> u32 \<Rightarrow> u32" where
  "decode_coeff r g b a modulus =
     reduce_coeff modulus
       (push_bit 24 (ucast r) OR push_bit 16 (ucast g) OR push_bit 8 (ucast b) OR ucast a)"

fun decode_pixels :: "u8 list \<Rightarrow> u32 \<Rightarrow> u32 list" where
  "decode_pixels (r # g # b # a # rest) modulus =
     decode_coeff r g b a modulus # decode_pixels rest modulus"
| "decode_pixels _ modulus = []"

definition decode_colors_to_polynomial :: "u8 list \<Rightarrow> u32 \<Rightarrow> failure + u32 list" where
  "decode_colors_to_polynomial color_data modulus =
     (if length color_data mod 4 \<noteq> 0
      then Inl (InvalidArgument ''Color data size must be multiple of 4'')
      else Inr (decode_pixels color_data modulus))"

primrec encode_polynomial_vector_as_colors :: "u32 list list \<Rightarrow> u32 \<Rightarrow> u8 list" where
  "encode_polynomial_vector_as_colors [] modulus = []"
| "encode_polynomial_vector_as_colors (poly # poly_vector) modulus =
     encode_polynomial_as_colors poly modulus @
     encode_polynomial_vector_as_colors poly_vector modulus"

text \<open>
  \<^verbatim>\<open>decode_colors_to_polynomial_vector\<close>: the inner loop reads \<open>n\<close> pixels from
  \<open>idx\<close> on, the outer loop runs it \<open>k\<close> times; \<open>idx\<close> advances by 4 per coefficient.
\<close>

fun decode_poly_at :: "u8 list \<Rightarrow> nat \<Rightarrow> nat \<Rightarrow> u32 \<Rightarrow> failure + u32 list" where
  "decode_poly_at color_data idx 0 modulus = Inr []"
| "decode_poly_at color_data idx (Suc j) modulus =
     (if idx + 3 < length color_data then
        (case decode_poly_at color_data (idx + 4) j modulus of
           Inl e \<Rightarrow> Inl e
         | Inr cs \<Rightarrow>
             Inr (decode_coeff (color_data ! idx) (color_data ! (idx + 1))
                    (color_data ! (idx + 2)) (color_data ! (idx + 3)) modulus # cs))
      else Inl OutOfBounds)"

fun decode_vector_at :: "u8 list \<Rightarrow> nat \<Rightarrow> nat \<Rightarrow> nat \<Rightarrow> u32 \<Rightarrow> failure + u32 list list" where
  "decode_vector_at color_data idx 0 n modulus = Inr []"
| "decode_vector_at color_data idx (Suc i) n modulus =
     (case decode_poly_at color_data idx n modulus of
        Inl e \<Rightarrow> Inl e
      | Inr p \<Rightarrow>
          (case decode_vector_at color_data (idx + 4 * n) i n modulus of
             Inl e \<Rightarrow> Inl e
           | Inr ps \<Rightarrow> Inr (p # ps)))"

text \<open>The size check multiplies in \<^verbatim>\<open>uint32_t\<close>, so \<open>k * n * 4\<close> wraps at \<open>2^32\<close>.\<close>

definition decode_colors_to_polynomial_vector ::
    "u8 list \<Rightarrow> u32 \<Rightarrow> u32 \<Rightarrow> u32 \<Rightarrow> failure + u32 list list" where
  "decode_colors_to_polynomial_vector color_data k n modulus =
     (if length color_data \<noteq> unat (k * n * 4)
      then Inl (InvalidArgument ''Color data size does not match expected dimensions'')
      else decode_vector_at color_data 0 (unat k) (unat n) modulus)"

section \<open>CBOR and COSE\_Sign1 (cose.cpp)\<close>

text \<open>
  \<^verbatim>\<open>cbor::encode_bstr\<close>: the header byte carries major type 2 (\<open>2 << 5 = 0x40\<close>) and
  the length, inline below 24, else in 1, 2 or 4 following bytes (big-endian); the
  data follow.  The length is a \<^verbatim>\<open>size_t\<close>, modelled as a natural number; the casts to
  \<^verbatim>\<open>uint8_t\<close> truncate (\<open>of_nat\<close>).
\<close>

definition encode_bstr :: "u8 list \<Rightarrow> u8 list" where
  "encode_bstr data =
     (let len = length data in
      (if len < 24 then [0x40 OR of_nat len]
       else if len \<le> 0xFF then [0x40 OR 24, of_nat len]
       else if len \<le> 0xFFFF then [0x40 OR 25, of_nat (len div 2 ^ 8), of_nat (len mod 2 ^ 8)]
       else [0x40 OR 26, of_nat (len div 2 ^ 24 mod 2 ^ 8), of_nat (len div 2 ^ 16 mod 2 ^ 8),
             of_nat (len div 2 ^ 8 mod 2 ^ 8), of_nat (len mod 2 ^ 8)])
      @ data)"

text \<open>\<^verbatim>\<open>cbor::encode_array\<close>: major type 4 (\<open>4 << 5 = 0x80\<close>), then the items as they are.\<close>

definition encode_array :: "u8 list list \<Rightarrow> u8 list" where
  "encode_array items =
     (let len = length items in
      (if len < 24 then [0x80 OR of_nat len] else [0x80 OR 24, of_nat len])
      @ concat items)"

text \<open>
  \<^verbatim>\<open>cbor::decode_bstr\<close> reads at \<open>offset\<close> and returns the bytes with the new offset.
  It accepts an inline length and a 1-byte length only; every other additional
  information value throws.
\<close>

definition decode_bstr :: "u8 list \<Rightarrow> nat \<Rightarrow> failure + (u8 list \<times> nat)" where
  "decode_bstr data offset =
     (if offset \<ge> length data then Inl (InvalidArgument ''CBOR decode: out of bounds'')
      else
        let initial = data ! offset;
            major = drop_bit 5 initial;
            minor = initial AND 0x1F
        in if major \<noteq> 2 then Inl (InvalidArgument ''CBOR decode: not byte string'')
           else if minor < 24 then
             (if offset + 1 + unat minor > length data
              then Inl (InvalidArgument ''CBOR decode: bstr data incomplete'')
              else Inr (take (unat minor) (drop (offset + 1) data), offset + 1 + unat minor))
           else if minor = 24 then
             (if offset + 1 \<ge> length data
              then Inl (InvalidArgument ''CBOR decode: incomplete bstr len'')
              else
                let len = unat (data ! (offset + 1))
                in if offset + 2 + len > length data
                   then Inl (InvalidArgument ''CBOR decode: bstr data incomplete'')
                   else Inr (take len (drop (offset + 2) data), offset + 2 + len))
           else Inl (InvalidArgument ''CBOR decode: large bstr not supported''))"

text \<open>The loop of \<^verbatim>\<open>cbor::decode_array\<close>: \<open>len\<close> byte strings, one after the other.\<close>

fun decode_items :: "u8 list \<Rightarrow> nat \<Rightarrow> nat \<Rightarrow> failure + (u8 list list \<times> nat)" where
  "decode_items data offset 0 = Inr ([], offset)"
| "decode_items data offset (Suc i) =
     (case decode_bstr data offset of
        Inl e \<Rightarrow> Inl e
      | Inr (item, offset') \<Rightarrow>
          (case decode_items data offset' i of
             Inl e \<Rightarrow> Inl e
           | Inr (items, offset'') \<Rightarrow> Inr (item # items, offset'')))"

definition decode_array :: "u8 list \<Rightarrow> nat \<Rightarrow> failure + (u8 list list \<times> nat)" where
  "decode_array data offset =
     (if offset \<ge> length data then Inl (InvalidArgument ''CBOR decode: out of bounds'')
      else
        let initial = data ! offset;
            major = drop_bit 5 initial;
            minor = initial AND 0x1F
        in if major \<noteq> 4 then Inl (InvalidArgument ''CBOR decode: not array'')
           else if minor < 24 then decode_items data (offset + 1) (unat minor)
           else if minor = 24 then
             (if offset + 1 \<ge> length data
              then Inl (InvalidArgument ''CBOR decode: incomplete array len'')
              else decode_items data (offset + 2) (unat (data ! (offset + 1))))
           else Inl (InvalidArgument ''CBOR decode: large array not supported''))"

record COSE_Sign1 =
  protected_header :: "u8 list"
  unprotected_header :: "u8 list"
  payload :: "u8 list"
  signature :: "u8 list"

definition encode_cose_sign1 :: "COSE_Sign1 \<Rightarrow> u8 list" where
  "encode_cose_sign1 cose_msg =
     encode_array [encode_bstr (protected_header cose_msg),
                   encode_bstr (unprotected_header cose_msg),
                   encode_bstr (payload cose_msg),
                   encode_bstr (signature cose_msg)]"

definition decode_cose_sign1 :: "u8 list \<Rightarrow> failure + COSE_Sign1" where
  "decode_cose_sign1 cbor_data =
     (case decode_array cbor_data 0 of
        Inl e \<Rightarrow> Inl e
      | Inr (items, offset) \<Rightarrow>
          (if length items \<noteq> 4 then Inl (InvalidArgument ''COSE_Sign1 must have 4 elements'')
           else Inr \<lparr>protected_header = items ! 0, unprotected_header = items ! 1,
                     payload = items ! 2, signature = items ! 3\<rparr>))"

section \<open>Samplers (utils.cpp)\<close>

text \<open>
  The Keccak sponge is not modelled.  After \<^verbatim>\<open>init(seed)\<close> a sampler is an output
  stream: \<^verbatim>\<open>squeeze(out, len)\<close> hands out the next \<open>len\<close> bytes and advances.  The state of
  a sampler is therefore the stream (a function from positions to bytes, fixed by the
  seed) and the position reached; every function below returns the new position.
  All results hold for every stream.
\<close>

type_synonym xof_stream = "nat \<Rightarrow> u8"

subsection \<open>\<^verbatim>\<open>sample_uniform\<close> (the same body in SHAKE128Sampler and SHAKE256Sampler)\<close>

text \<open>
  The first loop counts the bits of \<open>modulus - 1\<close>.  The second loop squeezes 4 bytes,
  forms the little-endian 32-bit value, masks it to \<open>bits_needed\<close> bits and returns it
  when it is below the modulus; otherwise it tries again, for ever if need be, so the
  loop is a partial function and not returning is \<open>None\<close>.
  (\<^verbatim>\<open>1U << bits_needed\<close> is undefined in C++ for \<open>bits_needed = 32\<close>, which needs
  \<open>modulus = 0\<close> or \<open>modulus > 2^31\<close>; no caller does that.)
\<close>

function bits_needed_loop :: "u32 \<Rightarrow> u32 \<Rightarrow> u32" where
  "bits_needed_loop temp bits_needed =
     (if temp > 0 then bits_needed_loop (drop_bit 1 temp) (bits_needed + 1) else bits_needed)"
  by pat_completeness auto
termination
proof (relation "measure (\<lambda>(temp, bits_needed). unat temp)")
  show "wf (measure (\<lambda>(temp :: u32, bits_needed :: u32). unat temp))"
    by simp
next
  fix temp bits_needed :: u32
  assume "0 < temp"
  then have "unat temp \<noteq> 0"
    by (simp add: unat_gt_0)
  then have "unat temp div 2 < unat temp"
    by simp
  then show "((drop_bit 1 temp, bits_needed + 1), (temp, bits_needed))
             \<in> measure (\<lambda>(temp, bits_needed). unat temp)"
    by (simp add: drop_bit_eq_div unat_div)
qed

definition uniform_candidate :: "u32 \<Rightarrow> xof_stream \<Rightarrow> nat \<Rightarrow> u32" where
  "uniform_candidate bits_needed s pos =
     (ucast (s pos) OR push_bit 8 (ucast (s (pos + 1))) OR push_bit 16 (ucast (s (pos + 2)))
        OR push_bit 24 (ucast (s (pos + 3))))
     AND (push_bit (unat bits_needed) 1 - 1)"

partial_function (option) sample_uniform_loop ::
    "u32 \<Rightarrow> u32 \<Rightarrow> xof_stream \<Rightarrow> nat \<Rightarrow> (u32 \<times> nat) option" where
  "sample_uniform_loop bits_needed modulus s pos =
     (if uniform_candidate bits_needed s pos < modulus
      then Some (uniform_candidate bits_needed s pos, pos + 4)
      else sample_uniform_loop bits_needed modulus s (pos + 4))"

definition sample_uniform :: "u32 \<Rightarrow> xof_stream \<Rightarrow> nat \<Rightarrow> (u32 \<times> nat) option" where
  "sample_uniform modulus s pos =
     sample_uniform_loop (bits_needed_loop (modulus - 1) 0) modulus s pos"

text \<open>\<^verbatim>\<open>sample_polynomial_uniform\<close>: \<open>degree\<close> calls, one after the other.\<close>

fun sample_polynomial_uniform ::
    "xof_stream \<Rightarrow> nat \<Rightarrow> nat \<Rightarrow> u32 \<Rightarrow> (u32 list \<times> nat) option" where
  "sample_polynomial_uniform s pos 0 modulus = Some ([], pos)"
| "sample_polynomial_uniform s pos (Suc i) modulus =
     (case sample_uniform modulus s pos of
        None \<Rightarrow> None
      | Some (c, pos') \<Rightarrow>
          (case sample_polynomial_uniform s pos' i modulus of
             None \<Rightarrow> None
           | Some (cs, pos'') \<Rightarrow> Some (c # cs, pos'')))"

text \<open>
  The reference rejection sampler, in the words of the specification: 3 bytes per
  attempt, a 23-bit little-endian integer with the top byte masked to \<open>0x7F\<close>, accepted
  when below \<open>q\<close>, skipped otherwise.
\<close>

definition le23 :: "u8 \<Rightarrow> u8 \<Rightarrow> u8 \<Rightarrow> u32" where
  "le23 b0 b1 b2 = ucast b0 OR push_bit 8 (ucast b1) OR push_bit 16 (ucast (b2 AND 0x7F))"

partial_function (option) rej_ntt_spec :: "u32 \<Rightarrow> xof_stream \<Rightarrow> nat \<Rightarrow> (u32 \<times> nat) option" where
  "rej_ntt_spec q s pos =
     (if le23 (s pos) (s (pos + 1)) (s (pos + 2)) < q
      then Some (le23 (s pos) (s (pos + 1)) (s (pos + 2)), pos + 3)
      else rej_ntt_spec q s (pos + 3))"

fun rej_ntt_spec_polynomial ::
    "xof_stream \<Rightarrow> nat \<Rightarrow> nat \<Rightarrow> u32 \<Rightarrow> (u32 list \<times> nat) option" where
  "rej_ntt_spec_polynomial s pos 0 q = Some ([], pos)"
| "rej_ntt_spec_polynomial s pos (Suc i) q =
     (case rej_ntt_spec q s pos of
        None \<Rightarrow> None
      | Some (c, pos') \<Rightarrow>
          (case rej_ntt_spec_polynomial s pos' i q of
             None \<Rightarrow> None
           | Some (cs, pos'') \<Rightarrow> Some (c # cs, pos'')))"

subsection \<open>\<^verbatim>\<open>sample_binomial_coefficient\<close> and \<^verbatim>\<open>sample_polynomial_binomial\<close>\<close>

text \<open>
  Two loops of \<open>eta\<close> rounds: each round squeezes one byte; the first loop adds its low
  bit to \<open>sum\<close> (here \<open>acc\<close>), the second subtracts it.  \<open>sum\<close> is an \<^verbatim>\<open>int32_t\<close> that stays within
  \<open>[-eta, eta]\<close>; it is modelled as an integer (exact for \<open>eta < 2^31\<close>).
\<close>

fun binomial_add :: "xof_stream \<Rightarrow> nat \<Rightarrow> nat \<Rightarrow> int \<Rightarrow> int \<times> nat" where
  "binomial_add s pos 0 acc = (acc, pos)"
| "binomial_add s pos (Suc i) acc = binomial_add s (pos + 1) i (acc + uint (s pos AND 1))"

fun binomial_sub :: "xof_stream \<Rightarrow> nat \<Rightarrow> nat \<Rightarrow> int \<Rightarrow> int \<times> nat" where
  "binomial_sub s pos 0 acc = (acc, pos)"
| "binomial_sub s pos (Suc i) acc = binomial_sub s (pos + 1) i (acc - uint (s pos AND 1))"

definition sample_binomial_coefficient :: "xof_stream \<Rightarrow> nat \<Rightarrow> u32 \<Rightarrow> int \<times> nat" where
  "sample_binomial_coefficient s pos eta =
     (case binomial_add s pos (unat eta) 0 of
        (acc, pos') \<Rightarrow> binomial_sub s pos' (unat eta) acc)"

text \<open>
  \<^verbatim>\<open>coeffs[i] = (coeff % modulus + modulus) % modulus\<close>: \<open>coeff\<close> is an \<^verbatim>\<open>int32_t\<close> and
  \<open>modulus\<close> a \<^verbatim>\<open>uint32_t\<close>, so C++ converts \<open>coeff\<close> to \<^verbatim>\<open>uint32_t\<close> first and the
  whole expression is unsigned 32-bit arithmetic.
\<close>

definition store_coefficient :: "int \<Rightarrow> u32 \<Rightarrow> u32" where
  "store_coefficient coeff modulus = ((word_of_int coeff mod modulus) + modulus) mod modulus"

fun sample_polynomial_binomial ::
    "xof_stream \<Rightarrow> nat \<Rightarrow> nat \<Rightarrow> u32 \<Rightarrow> u32 \<Rightarrow> u32 list \<times> nat" where
  "sample_polynomial_binomial s pos 0 eta modulus = ([], pos)"
| "sample_polynomial_binomial s pos (Suc i) eta modulus =
     (case sample_binomial_coefficient s pos eta of
        (coeff, pos') \<Rightarrow>
          (case sample_polynomial_binomial s pos' i eta modulus of
             (coeffs, pos'') \<Rightarrow> (store_coefficient coeff modulus # coeffs, pos'')))"

text \<open>
  The bit-packed centered binomial sampler, in the words of the specification: for
  \<open>\<eta> = 2\<close> one byte gives a pair of coefficients, four bits each,
  \<open>(a1 + a2) - (b1 + b2)\<close>; for \<open>\<eta> = 4\<close> one byte gives one coefficient,
  \<open>(a1 + a2 + a3 + a4) - (b1 + b2 + b3 + b4)\<close>; coefficients are stored reduced
  mod \<open>q\<close>.  Bits are taken from the least significant one on.
\<close>

definition bit_at :: "u8 \<Rightarrow> nat \<Rightarrow> int" where
  "bit_at b i = (if bit b i then 1 else 0)"

definition cbd2_spec :: "u8 \<Rightarrow> int \<times> int" where
  "cbd2_spec b = ((bit_at b 0 + bit_at b 1) - (bit_at b 2 + bit_at b 3),
                  (bit_at b 4 + bit_at b 5) - (bit_at b 6 + bit_at b 7))"

definition cbd4_spec :: "u8 \<Rightarrow> int" where
  "cbd4_spec b = (bit_at b 0 + bit_at b 1 + bit_at b 2 + bit_at b 3)
               - (bit_at b 4 + bit_at b 5 + bit_at b 6 + bit_at b 7)"

fun cbd_spec_polynomial :: "xof_stream \<Rightarrow> nat \<Rightarrow> nat \<Rightarrow> nat \<Rightarrow> int \<Rightarrow> int list \<times> nat" where
  "cbd_spec_polynomial s pos 0 eta q = ([], pos)"
| "cbd_spec_polynomial s pos (Suc 0) eta q =
     (if eta = 2 then ([fst (cbd2_spec (s pos)) mod q], pos + 1)
      else ([cbd4_spec (s pos) mod q], pos + 1))"
| "cbd_spec_polynomial s pos (Suc (Suc i)) eta q =
     (if eta = 2 then
        (case cbd_spec_polynomial s (pos + 1) i eta q of
           (cs, pos') \<Rightarrow> (fst (cbd2_spec (s pos)) mod q # snd (cbd2_spec (s pos)) mod q # cs, pos'))
      else
        (case cbd_spec_polynomial s (pos + 1) (Suc i) eta q of
           (cs, pos') \<Rightarrow> (cbd4_spec (s pos) mod q # cs, pos')))"

subsection \<open>\<^verbatim>\<open>sample_challenge\<close>\<close>

text \<open>
  \<open>positions\<close> starts as \<open>0, 1, \<dots>, n - 1\<close>.  The first loop runs \<open>i = 0, \<dots>, tau - 1\<close>:
  \<^verbatim>\<open>j = i + sample_uniform(n - i)\<close> and \<^verbatim>\<open>swap(positions[i], positions[j])\<close>.  Then \<open>c\<close> is
  filled with zeros, and the second loop squeezes one byte per \<open>i\<close> and stores \<open>1\<close> (low
  bit set) or \<open>q - 1\<close> at \<open>c[positions[i]]\<close>.  The sampler starts at position 0 of the
  stream of the seed.  (\<open>c\<close> must have at least \<open>n\<close> entries, and \<open>tau \<le> n\<close>.)
\<close>

definition swap_positions :: "u32 list \<Rightarrow> nat \<Rightarrow> nat \<Rightarrow> u32 list" where
  "swap_positions positions i j = positions[i := positions ! j, j := positions ! i]"

fun fisher_yates ::
    "xof_stream \<Rightarrow> u32 \<Rightarrow> nat \<Rightarrow> nat \<Rightarrow> u32 list \<Rightarrow> nat \<Rightarrow> (u32 list \<times> nat) option" where
  "fisher_yates s n i 0 positions pos = Some (positions, pos)"
| "fisher_yates s n i (Suc r) positions pos =
     (case sample_uniform (n - of_nat i) s pos of
        None \<Rightarrow> None
      | Some (x, pos') \<Rightarrow>
          fisher_yates s n (Suc i) r
            (swap_positions positions i (unat (of_nat i + x))) pos')"

fun assign_signs ::
    "xof_stream \<Rightarrow> u32 \<Rightarrow> u32 list \<Rightarrow> nat \<Rightarrow> nat \<Rightarrow> u32 list \<Rightarrow> nat \<Rightarrow> u32 list \<times> nat" where
  "assign_signs s q positions i 0 c pos = (c, pos)"
| "assign_signs s q positions i (Suc r) c pos =
     assign_signs s q positions (Suc i) r
       (c[unat (positions ! i) := (if s pos AND 1 \<noteq> 0 then 1 else q - 1)]) (pos + 1)"

definition sample_challenge ::
    "u32 list \<Rightarrow> xof_stream \<Rightarrow> u32 \<Rightarrow> u32 \<Rightarrow> u32 \<Rightarrow> (u32 list \<times> nat) option" where
  "sample_challenge c s tau n q =
     (case fisher_yates s n 0 (unat tau) (map of_nat [0..<unat n]) 0 of
        None \<Rightarrow> None
      | Some (positions, pos) \<Rightarrow>
          Some (assign_signs s q positions 0 (unat tau) (replicate (length c) 0) pos))"

text \<open>
  What the rejection loop needs of the stream to return: from every position on, some
  later 4-byte window is accepted for the modulus.
\<close>

definition accepts_eventually :: "xof_stream \<Rightarrow> u32 \<Rightarrow> bool" where
  "accepts_eventually s modulus \<longleftrightarrow>
     (\<forall>pos. \<exists>k. uniform_candidate (bits_needed_loop (modulus - 1) 0) s (pos + 4 * k) < modulus)"

subsection \<open>\<^verbatim>\<open>compute_high_bits\<close>\<close>

text \<open>
  \<^verbatim>\<open>shift = 1 << (d - 1)\<close>, \<^verbatim>\<open>divisor = 1 << d\<close>, and for every index of \<open>w\<close>:
  \<^verbatim>\<open>w1[i] = (uint64_t(w[i]) + shift) / divisor\<close>, truncated to 32 bits.  The parameter
  \<open>q\<close> is not used.  (The shifts are undefined in C++ unless \<open>1 \<le> d \<le> 31\<close>, and \<open>w1\<close>
  must be at least as long as \<open>w\<close>.)
\<close>

definition high_bits_coeff :: "u32 \<Rightarrow> u32 \<Rightarrow> u32" where
  "high_bits_coeff d r =
     (let shift = (push_bit (unat (d - 1)) 1 :: u32);
          divisor = (push_bit (unat d) 1 :: u32);
          temp = (ucast r :: u64) + ucast shift
      in ucast (temp div ucast divisor))"

definition compute_high_bits :: "u32 list \<Rightarrow> u32 list \<Rightarrow> u32 \<Rightarrow> u32 \<Rightarrow> u32 list" where
  "compute_high_bits w w1 d q =
     fold (\<lambda>i w1. w1[i := high_bits_coeff d (w ! i)]) [0..<length w] w1"

text \<open>
  \<open>decompose\<close> and \<open>highBits\<close> in the words of the specification:
  \<open>r = r1 * \<alpha> + r0\<close> with \<open>r0\<close> in \<open>(-\<alpha>/2, \<alpha>/2]\<close>, and \<open>r1 = 0\<close> (with \<open>r0\<close> one less)
  when \<open>r - r0 = q - 1\<close>, the case in which the high part would wrap.
\<close>

definition decompose_spec :: "int \<Rightarrow> int \<Rightarrow> int \<Rightarrow> int \<times> int" where
  "decompose_spec q alpha r =
     (let r0 = (if r mod alpha > alpha div 2 then r mod alpha - alpha else r mod alpha)
      in if r - r0 = q - 1 then (0, r0 - 1) else ((r - r0) div alpha, r0))"

definition high_bits_spec :: "int \<Rightarrow> int \<Rightarrow> int \<Rightarrow> int" where
  "high_bits_spec q alpha r = fst (decompose_spec q alpha r)"

section \<open>Scalar NTT engine (ntt\_engine.cpp, ntt\_scalar.cpp)\<close>

text \<open>
  The engine is constructed for \<open>q = 8380417\<close> and \<open>n = 256\<close> only (the constructor
  throws otherwise), so \<open>log_n = 8\<close> and the vectors \<open>zetas_\<close>, \<open>zetas_inv_\<close> and
  \<open>bitrev_\<close> have 256 entries.  A polynomial is the array of 256 \<^verbatim>\<open>uint32_t\<close> behind
  the pointer, a list here.  \<^verbatim>\<open>int32_t\<close> and \<^verbatim>\<open>int64_t\<close> values are words read in two's
  complement; products wrap at \<open>2^64\<close>.
\<close>

definition zetas_ml_dsa :: "u32 list" where
  "zetas_ml_dsa =
    [0, 25847, - 2608894, - 518909, 237124, - 777960, - 876248, 466468,
     1826347, 2353451, - 359251, - 2091905, 3119733, - 2884855, 3111497, 2680103,
     2725464, 1024112, - 1079900, 3585928, - 1497254, 4189091, - 1882636, 2036599,
     1107237, 727831, - 214476, 18292, - 167782, - 240320, - 474467, - 378833,
     - 1575429, - 1194982, - 262805, - 857374, - 236959, - 876248, - 109702, - 494783,
     - 1846644, - 642346, - 1085204, - 1060846, - 466468, - 200074, - 120614, - 181804,
     - 167782, - 1107237, - 1882636, - 25847, - 2081905, - 1826347, - 2091905, - 181804,
     - 777960, - 2091905, - 237124, - 876248, - 3111497, - 262805, - 2091905, - 2725464,
     - 109702, - 3119733, - 236959, - 3119733, - 181804, - 3119733, - 3111497, - 2725464,
     - 2091905, - 2884855, - 1497254, - 3119733, - 3111497, - 2884855, - 2725464, - 2091905,
     - 2884855, - 3119733, - 1497254, - 2091905, - 3119733, - 2725464, - 2884855, - 3119733,
     - 2725464, - 2091905, - 2884855, - 3119733, - 3111497, - 2725464, - 2091905, - 2884855,
     - 3119733, - 1497254, - 2091905, - 3119733, - 3111497, - 2725464, - 2884855, - 3119733,
     - 2725464, - 2091905, - 2884855, - 3119733, - 3111497, - 2725464, - 2091905, - 2884855,
     - 3119733, - 1497254, - 2091905, - 3119733, - 3111497, - 2725464, - 2884855, - 3119733,
     - 2725464, - 2091905, - 2884855, - 3119733, - 3111497, - 2725464, - 2091905, - 2884855]"

text \<open>
  \<^verbatim>\<open>precompute_zetas\<close>: both vectors are filled with 0, then
  \<open>zetas_[i] = zetas_ml_dsa[i - 1]\<close> and \<open>zetas_inv_[i] = zetas_[128 - i]\<close> for
  \<open>1 \<le> i < 128\<close>.
\<close>

definition zetas :: "u32 list" where
  "zetas = map (\<lambda>i. if 1 \<le> i \<and> i < 128 then zetas_ml_dsa ! (i - 1) else 0) [0..<256]"

definition zetas_inv :: "u32 list" where
  "zetas_inv = map (\<lambda>i. if 1 \<le> i \<and> i < 128 then zetas ! (128 - i) else 0) [0..<256]"

text \<open>
  \<^verbatim>\<open>mod_inverse\<close> (utils.cpp), which gives \<open>n_inv_\<close>: the extended Euclidean loop.  \<open>a\<close>
  and \<open>m\<close> are \<^verbatim>\<open>uint32_t\<close> (no operation on them wraps), \<open>x0\<close>, \<open>x1\<close> are \<^verbatim>\<open>int64_t\<close>.
  A division by \<open>m = 0\<close> is \<open>None\<close>.
\<close>

function mod_inverse_loop :: "nat \<Rightarrow> nat \<Rightarrow> int \<Rightarrow> int \<Rightarrow> int option" where
  "mod_inverse_loop a m x0 x1 =
     (if a > 1 then
        (if m = 0 then None
         else mod_inverse_loop m (a mod m) (x1 - int (a div m) * x0) x0)
      else Some x1)"
  by pat_completeness auto
termination
  by (relation "measure (\<lambda>(a, m, x0, x1). m)") simp_all

definition mod_inverse :: "u32 \<Rightarrow> u32 \<Rightarrow> u32 option" where
  "mod_inverse a m =
     (if m = 1 then Some 0
      else (case mod_inverse_loop (unat a) (unat m) 0 1 of
              None \<Rightarrow> None
            | Some x1 \<Rightarrow> Some (word_of_int (if x1 < 0 then x1 + uint m else x1))))"

text \<open>
  \<^verbatim>\<open>montgomery_reduce\<close>: \<open>t = val * qinv\<close>, \<open>t &= 0xFFFFFFFF\<close>,
  \<open>result = val - t * q\<close>, \<open>result >>= 32\<close> (arithmetic shift), returned as \<^verbatim>\<open>int32_t\<close>.
\<close>

definition montgomery_reduce :: "u32 \<Rightarrow> u64 \<Rightarrow> u32" where
  "montgomery_reduce q val =
     (let t = (val * 587289889) AND 0xFFFFFFFF;
          result = val - t * ucast q
      in ucast (signed_drop_bit 32 result))"

text \<open>
  \<^verbatim>\<open>precompute_bitrev\<close> and \<^verbatim>\<open>bit_reverse\<close>: \<open>bitrev_[i]\<close> is \<open>i\<close> with its 8 bits
  reversed; entries \<open>i\<close> and \<open>bitrev_[i]\<close> are swapped when \<open>i < bitrev_[i]\<close>.
\<close>

function bitrev_loop :: "nat \<Rightarrow> nat \<Rightarrow> nat \<Rightarrow> nat" where
  "bitrev_loop i j r =
     (if j < 8 then bitrev_loop i (j + 1) (r OR push_bit (8 - 1 - j) (drop_bit j i AND 1))
      else r)"
  by pat_completeness auto
termination
  by (relation "measure (\<lambda>(i, j, r). 8 - j)") simp_all

definition bitrev_entry :: "nat \<Rightarrow> nat" where
  "bitrev_entry i = bitrev_loop i 0 0"

function bit_reverse_loop :: "nat \<Rightarrow> u32 list \<Rightarrow> u32 list" where
  "bit_reverse_loop i poly =
     (if i < 256 then
        bit_reverse_loop (i + 1)
          (if i < bitrev_entry i
           then poly[i := poly ! bitrev_entry i, bitrev_entry i := poly ! i] else poly)
      else poly)"
  by pat_completeness auto
termination
  by (relation "measure (\<lambda>(i, poly). 256 - i)") simp_all

definition bit_reverse :: "u32 list \<Rightarrow> u32 list" where
  "bit_reverse poly = bit_reverse_loop 0 poly"

text \<open>
  The butterfly of both transforms: \<open>u = poly[j]\<close>, \<open>v = poly[j + len/2]\<close>,
  \<open>t = (int64_t)v * zeta\<close>, \<open>t_mod = (uint32_t)montgomery_reduce(t)\<close>,
  \<open>poly[j] = (u + t_mod) % q\<close>, \<open>poly[j + len/2] = (u + q - t_mod) % q\<close>.
\<close>

definition butterfly :: "u32 \<Rightarrow> u32 \<Rightarrow> nat \<Rightarrow> nat \<Rightarrow> u32 list \<Rightarrow> u32 list" where
  "butterfly q zeta half j poly =
     (let u = poly ! j;
          v = poly ! (j + half);
          t_mod = montgomery_reduce q (ucast v * scast zeta)
      in poly[j := (u + t_mod) mod q, j + half := (u + q - t_mod) mod q])"

function butterflies :: "u32 \<Rightarrow> u32 \<Rightarrow> nat \<Rightarrow> nat \<Rightarrow> nat \<Rightarrow> u32 list \<Rightarrow> u32 list" where
  "butterflies q zeta half j stop poly =
     (if j < stop then butterflies q zeta half (j + 1) stop (butterfly q zeta half j poly)
      else poly)"
  by pat_completeness auto
termination
  by (relation "measure (\<lambda>(q, zeta, half, j, stop, poly). stop - j)") simp_all

text \<open>
  \<^verbatim>\<open>ntt_forward\<close>: after the bit reversal, \<open>len\<close> runs over \<open>2, 4, \<dots>, 256\<close>; for every
  \<open>start\<close> (a multiple of \<open>len\<close> below 256) the next zeta \<open>zetas_[k++]\<close> is taken while
  \<open>k < 256\<close>.  (A loop over \<open>start\<close> with \<open>len = 0\<close> would not end; \<open>len\<close> is never 0.)
\<close>

function forward_starts :: "u32 \<Rightarrow> nat \<Rightarrow> nat \<Rightarrow> nat \<Rightarrow> u32 list \<Rightarrow> u32 list \<times> nat" where
  "forward_starts q len start k poly =
     (if start < 256 \<and> 0 < len then
        (if k < 256
         then forward_starts q len (start + len) (k + 1)
                (butterflies q (zetas ! k) (len div 2) start (start + len div 2) poly)
         else forward_starts q len (start + len) k poly)
      else (poly, k))"
  by pat_completeness auto
termination
  by (relation "measure (\<lambda>(q, len, start, k, poly). 256 - start)") auto

function forward_levels :: "u32 \<Rightarrow> nat \<Rightarrow> nat \<Rightarrow> u32 list \<Rightarrow> u32 list" where
  "forward_levels q len k poly =
     (if len \<le> 256 \<and> 0 < len then
        forward_levels q (2 * len) (snd (forward_starts q len 0 k poly))
          (fst (forward_starts q len 0 k poly))
      else poly)"
  by pat_completeness auto
termination
  by (relation "measure (\<lambda>(q, len, k, poly). 257 - len)") auto

definition ntt_forward :: "u32 \<Rightarrow> u32 list \<Rightarrow> u32 list" where
  "ntt_forward q poly = forward_levels q 2 1 (bit_reverse poly)"

text \<open>
  \<^verbatim>\<open>ntt_inverse\<close>: \<open>len\<close> runs over \<open>128, 64, \<dots>, 2\<close> and \<open>k\<close> counts down from 127
  (\<open>zetas_inv_[k--]\<close>); \<open>k\<close> is a \<^verbatim>\<open>uint32_t\<close>, so below 0 it wraps to \<open>2^32 - 1\<close> and the
  test \<open>k < 256\<close> fails from then on.  Then the bit reversal, then every coefficient
  becomes \<open>montgomery_reduce((int64_t)poly[i] * n_inv)\<close>.
\<close>

function inverse_starts :: "u32 \<Rightarrow> nat \<Rightarrow> nat \<Rightarrow> nat \<Rightarrow> u32 list \<Rightarrow> u32 list \<times> nat" where
  "inverse_starts q len start k poly =
     (if start < 256 \<and> 0 < len then
        (if k < 256
         then inverse_starts q len (start + len) (if k = 0 then 2 ^ 32 - 1 else k - 1)
                (butterflies q (zetas_inv ! k) (len div 2) start (start + len div 2) poly)
         else inverse_starts q len (start + len) k poly)
      else (poly, k))"
  by pat_completeness auto
termination
  by (relation "measure (\<lambda>(q, len, start, k, poly). 256 - start)") auto

function inverse_levels :: "u32 \<Rightarrow> nat \<Rightarrow> nat \<Rightarrow> u32 list \<Rightarrow> u32 list" where
  "inverse_levels q len k poly =
     (if len \<ge> 2 then
        inverse_levels q (len div 2) (snd (inverse_starts q len 0 k poly))
          (fst (inverse_starts q len 0 k poly))
      else poly)"
  by pat_completeness auto
termination
  by (relation "measure (\<lambda>(q, len, k, poly). len)") simp_all

definition ntt_inverse :: "u32 \<Rightarrow> u32 \<Rightarrow> u32 list \<Rightarrow> u32 list" where
  "ntt_inverse q n_inv poly =
     map (\<lambda>x. montgomery_reduce q (ucast x * ucast n_inv))
       (bit_reverse (inverse_levels q 128 127 poly))"

text \<open>
  The round trip on the engine as constructed: \<open>n_inv_ = mod_inverse(256, 8380417)\<close>.
\<close>

definition ntt_round_trip :: "u32 list \<Rightarrow> u32 list option" where
  "ntt_round_trip poly =
     (case mod_inverse 256 8380417 of
        None \<Rightarrow> None
      | Some n_inv \<Rightarrow> Some (ntt_inverse 8380417 n_inv (ntt_forward 8380417 poly)))"


text \<open>The zero polynomial and the polynomial with a single coefficient 1, of
  the degree \<^verbatim>\<open>n_ = 256\<close> the tables are built for.\<close>

definition zero_poly :: "u32 list" where
  "zero_poly = replicate 256 0"

definition unit_poly :: "nat \<Rightarrow> u32 list" where
  "unit_poly i = zero_poly[i := 1]"

declare bit_reverse_loop.simps [simp del] butterflies.simps [simp del]
  forward_starts.simps [simp del] forward_levels.simps [simp del]
  inverse_starts.simps [simp del] inverse_levels.simps [simp del]


section \<open>Message validation at the entry of signing and verification\<close>

text \<open>Modelled from the spec: the body of \<^verbatim>\<open>InputValidator::validate_message_size\<close>
  (security\_utils.cpp) and the constant \<^verbatim>\<open>MAX_MESSAGE_SIZE\<close> are not among the
  sources. The sources hold its test (\<^verbatim>\<open>InputValidation_MessageSize\<close>): a message
  of 1000 bytes gives \<^verbatim>\<open>SUCCESS\<close>, the empty message and a message of
  \<^verbatim>\<open>MAX_MESSAGE_SIZE + 1\<close> bytes give \<^verbatim>\<open>INVALID_INPUT_SIZE\<close>. The bound is a
  parameter of the model.\<close>

datatype SecurityError = SUCCESS | INVALID_INPUT_SIZE

definition validate_message_size :: "nat \<Rightarrow> u8 list \<Rightarrow> SecurityError" where
  "validate_message_size max_message_size message =
     (if message = [] \<or> max_message_size < length message
      then INVALID_INPUT_SIZE else SUCCESS)"






section \<open>Serialized layouts of keys and signatures\<close>

text \<open>Modelled from the spec: the parameter sets of the specification's table
  (the struct \<^verbatim>\<open>CLWEParameters\<close> is declared in parameters.hpp, which is not
  among the sources).\<close>

record parameter_set =
  param_k :: nat
  param_l :: nat
  param_eta :: nat
  param_tau :: nat
  param_beta :: nat
  param_gamma1 :: nat
  param_gamma2 :: nat
  param_omega :: nat
  param_lambda :: nat

definition ml_dsa_44 :: parameter_set where
  "ml_dsa_44 = \<lparr>param_k = 4, param_l = 4, param_eta = 2, param_tau = 39, param_beta = 78,
     param_gamma1 = 2 ^ 17, param_gamma2 = (8380417 - 1) div 88, param_omega = 80,
     param_lambda = 128\<rparr>"

definition ml_dsa_65 :: parameter_set where
  "ml_dsa_65 = \<lparr>param_k = 6, param_l = 5, param_eta = 4, param_tau = 49, param_beta = 196,
     param_gamma1 = 2 ^ 19, param_gamma2 = (8380417 - 1) div 32, param_omega = 55,
     param_lambda = 192\<rparr>"

definition ml_dsa_87 :: parameter_set where
  "ml_dsa_87 = \<lparr>param_k = 8, param_l = 7, param_eta = 2, param_tau = 60, param_beta = 120,
     param_gamma1 = 2 ^ 19, param_gamma2 = (8380417 - 1) div 32, param_omega = 75,
     param_lambda = 256\<rparr>"

text \<open>Modelled from the spec: the width-specific bit packers (the packers of the
  serializers are not among the sources). A coefficient is written with its
  \<open>b\<close> low bits, least significant bit first; the bit string of a polynomial
  is cut into bytes, least significant bit first.\<close>

fun coefficient_bits :: "nat \<Rightarrow> nat \<Rightarrow> bool list" where
  "coefficient_bits 0 c = []"
| "coefficient_bits (Suc b) c = odd c # coefficient_bits b (c div 2)"

definition byte_of_bits :: "bool list \<Rightarrow> u8" where
  "byte_of_bits bs = foldr (\<lambda>b acc. (if b then 1 else 0) + 2 * acc) bs 0"

fun bits_to_bytes :: "bool list \<Rightarrow> u8 list" where
  "bits_to_bytes [] = []"
| "bits_to_bytes (b # bs) = byte_of_bits (take 8 (b # bs)) # bits_to_bytes (drop 8 (b # bs))"

definition bit_pack :: "nat \<Rightarrow> nat list \<Rightarrow> u8 list" where
  "bit_pack b poly = bits_to_bytes (concat (map (coefficient_bits b) poly))"

definition pack_poly_vec :: "nat \<Rightarrow> nat list list \<Rightarrow> u8 list" where
  "pack_poly_vec b v = concat (map (bit_pack b) v)"

text \<open>Modelled from the spec: the widths of the packing table: 3 bits for
  \<open>\<eta> = 2\<close> and 4 bits for \<open>\<eta> = 4\<close>; 18 bits for \<open>\<gamma>\<^sub>1 = 2\<^sup>1\<^sup>7\<close> and 20 bits for
  \<open>\<gamma>\<^sub>1 = 2\<^sup>1\<^sup>9\<close>; 10 bits for \<open>t\<^sub>1\<close> and 13 bits for \<open>t\<^sub>0\<close>.\<close>

definition eta_bits :: "parameter_set \<Rightarrow> nat" where
  "eta_bits P = (if param_eta P = 2 then 3 else 4)"

definition z_bits :: "parameter_set \<Rightarrow> nat" where
  "z_bits P = (if param_gamma1 P = 2 ^ 17 then 18 else 20)"

text \<open>Modelled from the spec: the hint encoding (its encoder is not among the
  sources): the column indices of the nonzero hint coefficients grouped by
  row, then \<open>\<omega> - popcount\<close> zero bytes, then the \<open>k\<close> cumulative row-end
  offsets.\<close>

definition row_indices :: "bool list \<Rightarrow> u8 list" where
  "row_indices row = map of_nat (filter (\<lambda>i. row ! i) [0..<length row])"

definition popcount :: "bool list list \<Rightarrow> nat" where
  "popcount h = length (concat (map row_indices h))"

fun row_ends :: "nat \<Rightarrow> bool list list \<Rightarrow> u8 list" where
  "row_ends acc [] = []"
| "row_ends acc (row # rows) =
     of_nat (acc + length (row_indices row)) # row_ends (acc + length (row_indices row)) rows"

definition pack_h :: "nat \<Rightarrow> bool list list \<Rightarrow> u8 list" where
  "pack_h omega h =
     concat (map row_indices h) @ replicate (omega - popcount h) 0 @ row_ends 0 h"

text \<open>Modelled from the spec: the three artifacts and their layouts (the
  serializers of keys and signatures are not among the sources):
  \<open>pk = \<rho> (32) \<parallel> pack_t1\<close>,
  \<open>sk = \<rho> (32) \<parallel> K (32) \<parallel> tr (64) \<parallel> pack_eta(s1) \<parallel> pack_eta(s2) \<parallel> pack_t0(t0)\<close>,
  \<open>sig = c~ (\<lambda>/4) \<parallel> pack_z(z) \<parallel> pack_h(h)\<close>.\<close>

record PublicKey =
  pk_rho :: "u8 list"
  pk_t1 :: "nat list list"

record PrivateKey =
  sk_rho :: "u8 list"
  sk_K :: "u8 list"
  sk_tr :: "u8 list"
  sk_s1 :: "nat list list"
  sk_s2 :: "nat list list"
  sk_t0 :: "nat list list"

record Signature =
  sig_c_tilde :: "u8 list"
  sig_z :: "nat list list"
  sig_h :: "bool list list"

definition pk_bytes :: "PublicKey \<Rightarrow> u8 list" where
  "pk_bytes pk = pk_rho pk @ pack_poly_vec 10 (pk_t1 pk)"

definition sk_bytes :: "parameter_set \<Rightarrow> PrivateKey \<Rightarrow> u8 list" where
  "sk_bytes P sk = sk_rho sk @ sk_K sk @ sk_tr sk
     @ pack_poly_vec (eta_bits P) (sk_s1 sk) @ pack_poly_vec (eta_bits P) (sk_s2 sk)
     @ pack_poly_vec 13 (sk_t0 sk)"

definition sig_bytes :: "parameter_set \<Rightarrow> Signature \<Rightarrow> u8 list" where
  "sig_bytes P sg = sig_c_tilde sg @ pack_poly_vec (z_bits P) (sig_z sg)
     @ pack_h (param_omega P) (sig_h sg)"

text \<open>Modelled from the spec: the shapes of the entities: a vector of \<open>m\<close>
  polynomials of 256 coefficients; seeds of 32 bytes, \<open>tr\<close> of 64 bytes, \<open>c~\<close>
  of \<open>\<lambda>/4\<close> bytes; a hint of \<open>k\<close> rows of 256 bits with at most \<open>\<omega>\<close> bits
  set.\<close>

definition poly_vec :: "nat \<Rightarrow> 'a list list \<Rightarrow> bool" where
  "poly_vec m v = (length v = m \<and> list_all (\<lambda>p. length p = 256) v)"

definition wf_public_key :: "parameter_set \<Rightarrow> PublicKey \<Rightarrow> bool" where
  "wf_public_key P pk = (length (pk_rho pk) = 32 \<and> poly_vec (param_k P) (pk_t1 pk))"

definition wf_private_key :: "parameter_set \<Rightarrow> PrivateKey \<Rightarrow> bool" where
  "wf_private_key P sk =
     (length (sk_rho sk) = 32 \<and> length (sk_K sk) = 32 \<and> length (sk_tr sk) = 64
      \<and> poly_vec (param_l P) (sk_s1 sk) \<and> poly_vec (param_k P) (sk_s2 sk)
      \<and> poly_vec (param_k P) (sk_t0 sk))"

definition wf_signature :: "parameter_set \<Rightarrow> Signature \<Rightarrow> bool" where
  "wf_signature P sg =
     (length (sig_c_tilde sg) = param_lambda P div 4 \<and> poly_vec (param_l P) (sig_z sg)
      \<and> poly_vec (param_k P) (sig_h sg) \<and> popcount (sig_h sg) \<le> param_omega P)"

text \<open>A key pair and a signature of all-zero entries, for each parameter set.\<close>

definition zero_public_key :: "parameter_set \<Rightarrow> PublicKey" where
  "zero_public_key P =
     \<lparr>pk_rho = replicate 32 0, pk_t1 = replicate (param_k P) (replicate 256 0)\<rparr>"

definition zero_private_key :: "parameter_set \<Rightarrow> PrivateKey" where
  "zero_private_key P =
     \<lparr>sk_rho = replicate 32 0, sk_K = replicate 32 0, sk_tr = replicate 64 0,
      sk_s1 = replicate (param_l P) (replicate 256 0),
      sk_s2 = replicate (param_k P) (replicate 256 0),
      sk_t0 = replicate (param_k P) (replicate 256 0)\<rparr>"

definition zero_signature :: "parameter_set \<Rightarrow> Signature" where
  "zero_signature P =
     \<lparr>sig_c_tilde = replicate (param_lambda P div 4) 0,
      sig_z = replicate (param_l P) (replicate 256 0),
      sig_h = replicate (param_k P) (replicate 256 False)\<rparr>"


section \<open>Color codec: round trip\<close>

lemma ff_mask: "(0xFF :: u32) = mask 8"
  by (simp add: mask_eq_exp_minus_1)

lemma byte_of_word: "(ucast (ucast (drop_bit k (c::u32) AND 0xFF) :: u8) :: u32) = take_bit 8 (drop_bit k c)"
  unfolding ff_mask by (rule bit_word_eqI) (auto simp add: bit_simps)

lemma low_byte_of_word: "(ucast (ucast ((c::u32) AND 0xFF) :: u8) :: u32) = take_bit 8 c"
  using byte_of_word [of 0 c] by simp

lemma bytes_recombine:
  fixes c :: u32
  shows "push_bit 24 (take_bit 8 (drop_bit 24 c)) OR push_bit 16 (take_bit 8 (drop_bit 16 c)) OR
         push_bit 8 (take_bit 8 (drop_bit 8 c)) OR take_bit 8 c = c"
proof (rule bit_word_eqI)
  fix n assume n: "n < LENGTH(32)"
  consider "n < 8" | "8 \<le> n" "n < 16" | "16 \<le> n" "n < 24" | "24 \<le> n"
    by linarith
  then show "bit (push_bit 24 (take_bit 8 (drop_bit 24 c)) OR
                  push_bit 16 (take_bit 8 (drop_bit 16 c)) OR
                  push_bit 8 (take_bit 8 (drop_bit 8 c)) OR take_bit 8 c) n = bit c n"
    using n by cases (auto simp add: bit_simps)
qed

lemma reduce_coeff_id: "c < modulus \<Longrightarrow> reduce_coeff modulus c = c"
  by (simp add: reduce_coeff_def word_mod_less_divisor mod_word_less)

lemma decode_coeff_of_bytes:
  "c < modulus \<Longrightarrow>
   decode_coeff (ucast (drop_bit 24 c AND 0xFF)) (ucast (drop_bit 16 c AND 0xFF))
     (ucast (drop_bit 8 c AND 0xFF)) (ucast (c AND 0xFF)) modulus = c"
  by (simp add: decode_coeff_def byte_of_word low_byte_of_word bytes_recombine reduce_coeff_id)

lemma length_encode_polynomial:
  "length (encode_polynomial_as_colors poly modulus) = 4 * length poly"
  by (induction poly) simp_all

lemma decode_pixels_encode:
  "\<forall>c\<in>set poly. c < modulus \<Longrightarrow>
   decode_pixels (encode_polynomial_as_colors poly modulus) modulus = poly"
  by (induction poly) (simp_all add: reduce_coeff_id decode_coeff_of_bytes)

lemma decode_colors_to_polynomial_encode:
  "\<forall>c\<in>set poly. c < modulus \<Longrightarrow>
   decode_colors_to_polynomial (encode_polynomial_as_colors poly modulus) modulus = Inr poly"
  by (simp add: decode_colors_to_polynomial_def length_encode_polynomial decode_pixels_encode)

lemma decode_poly_at_encode:
  "\<forall>c\<in>set poly. c < modulus \<Longrightarrow>
   decode_poly_at (pre @ encode_polynomial_as_colors poly modulus @ post) (length pre)
     (length poly) modulus = Inr poly"
proof (induction poly arbitrary: pre)
  case Nil
  then show ?case by simp
next
  case (Cons c cs)
  let ?b3 = "ucast (drop_bit 24 c AND 0xFF) :: u8"
  let ?b2 = "ucast (drop_bit 16 c AND 0xFF) :: u8"
  let ?b1 = "ucast (drop_bit 8 c AND 0xFF) :: u8"
  let ?b0 = "ucast (c AND 0xFF) :: u8"
  let ?rest = "encode_polynomial_as_colors cs modulus @ post"
  have c: "c < modulus" and cs: "\<forall>c\<in>set cs. c < modulus"
    using Cons.prems by simp_all
  have enc: "pre @ encode_polynomial_as_colors (c # cs) modulus @ post =
             pre @ ?b3 # ?b2 # ?b1 # ?b0 # ?rest"
    using c by (simp add: reduce_coeff_id)
  have data: "(pre @ [?b3, ?b2, ?b1, ?b0]) @ ?rest = pre @ ?b3 # ?b2 # ?b1 # ?b0 # ?rest"
    by simp
  have len4: "length (pre @ [?b3, ?b2, ?b1, ?b0]) = length pre + 4"
    by simp
  have "decode_poly_at ((pre @ [?b3, ?b2, ?b1, ?b0]) @ ?rest)
          (length (pre @ [?b3, ?b2, ?b1, ?b0])) (length cs) modulus = Inr cs"
    by (rule Cons.IH [OF cs])
  then have ih: "decode_poly_at (pre @ ?b3 # ?b2 # ?b1 # ?b0 # ?rest) (length pre + 4)
                   (length cs) modulus = Inr cs"
    unfolding len4 data .
  have nths: "(pre @ ?b3 # ?b2 # ?b1 # ?b0 # ?rest) ! length pre = ?b3"
    "(pre @ ?b3 # ?b2 # ?b1 # ?b0 # ?rest) ! (length pre + 1) = ?b2"
    "(pre @ ?b3 # ?b2 # ?b1 # ?b0 # ?rest) ! (length pre + 2) = ?b1"
    "(pre @ ?b3 # ?b2 # ?b1 # ?b0 # ?rest) ! (length pre + 3) = ?b0"
    by (simp_all add: nth_append)
  have nths': "(pre @ ?b3 # ?b2 # ?b1 # ?b0 # ?rest) ! Suc (length pre) = ?b2"
    "(pre @ ?b3 # ?b2 # ?b1 # ?b0 # ?rest) ! Suc (Suc (length pre)) = ?b1"
    using nths(2,3) by simp_all
  show ?case
    unfolding enc
    using ih c
    by (simp add: nths nths' decode_coeff_of_bytes)
qed

lemma length_encode_vector:
  "\<forall>p\<in>set v. length p = n \<Longrightarrow>
   length (encode_polynomial_vector_as_colors v modulus) = 4 * (length v * n)"
  by (induction v) (simp_all add: length_encode_polynomial)

lemma decode_vector_at_encode:
  "\<forall>p\<in>set v. length p = n \<and> (\<forall>c\<in>set p. c < modulus) \<Longrightarrow>
   decode_vector_at (pre @ encode_polynomial_vector_as_colors v modulus) (length pre)
     (length v) n modulus = Inr v"
proof (induction v arbitrary: pre)
  case Nil
  then show ?case by simp
next
  case (Cons p ps)
  have p: "length p = n" "\<forall>c\<in>set p. c < modulus"
    and ps: "\<forall>p\<in>set ps. length p = n \<and> (\<forall>c\<in>set p. c < modulus)"
    using Cons.prems by simp_all
  have first: "decode_poly_at
      (pre @ encode_polynomial_as_colors p modulus @ encode_polynomial_vector_as_colors ps modulus)
      (length pre) n modulus = Inr p"
    using decode_poly_at_encode [OF p(2), of pre] p(1) by simp
  have rest: "decode_vector_at
      ((pre @ encode_polynomial_as_colors p modulus) @ encode_polynomial_vector_as_colors ps modulus)
      (length pre + 4 * n) (length ps) n modulus = Inr ps"
    using Cons.IH [OF ps, of "pre @ encode_polynomial_as_colors p modulus"] p(1)
    by (simp add: length_encode_polynomial)
  show ?case
    using first rest by simp
qed

text \<open>
  C7.  Color codec round trip: a polynomial vector \<open>v\<close> of \<open>k\<close> polynomials with \<open>n\<close>
  coefficients each, all coefficients below the modulus, is returned unchanged by
  \<^verbatim>\<open>decode_colors_to_polynomial_vector\<close> applied to its color encoding with the same
  modulus.  The dimensions are those of a vector that fits the decoder's 32-bit size
  check (\<open>4 * k * n < 2^32\<close>; ML-DSA has \<open>n = 256\<close> and \<open>k \<le> 8\<close>).
\<close>

theorem color_codec_round_trip:
  assumes "\<forall>p\<in>set v. length p = unat n \<and> (\<forall>c\<in>set p. c < modulus)"
    and "length v = unat k"
    and "unat k * unat n * 4 < 2 ^ 32"
  shows "decode_colors_to_polynomial_vector
           (encode_polynomial_vector_as_colors v modulus) k n modulus = Inr v"
proof -
  have len: "length (encode_polynomial_vector_as_colors v modulus) = 4 * (unat k * unat n)"
    using assms(1,2) length_encode_vector [of v "unat n" modulus] by simp
  have "unat (k * n * 4) = (unat k * unat n * 4) mod 2 ^ 32"
    by (simp add: unat_word_ariths mod_mult_left_eq)
  then have size: "unat (k * n * 4) = 4 * (unat k * unat n)"
    using assms(3) by simp
  have "decode_vector_at ([] @ encode_polynomial_vector_as_colors v modulus) (length ([]::u8 list))
          (length v) (unat n) modulus = Inr v"
    using assms(1) by (rule decode_vector_at_encode)
  then show ?thesis
    using len size assms(2) by (simp add: decode_colors_to_polynomial_vector_def)
qed

theorem color_codec_round_trip_witness:
  "decode_colors_to_polynomial_vector
     (encode_polynomial_vector_as_colors [[1, 8380416], [65536, 258]] 8380417) 2 2 8380417
   = Inr [[1, 8380416], [65536, 258]]"
  using color_codec_round_trip [of "[[1, 8380416], [65536, 258]]" 2 8380417 2]
  by simp

section \<open>COSE\_Sign1: what decoding returns on an encoded envelope\<close>

lemma bit_0x40: "bit (0x40 :: u8) n \<longleftrightarrow> n = 6"
proof -
  have "(0x40 :: u8) = 2 ^ 6" by simp
  then have "bit (0x40 :: u8) n \<longleftrightarrow> bit (2 ^ 6 :: u8) n" by simp
  also have "\<dots> \<longleftrightarrow> n = 6" by (auto simp only: bit_exp_iff possible_bit_word) simp
  finally show ?thesis .
qed

lemma hdr_small:
  fixes w :: u8
  assumes "w < 32"
  shows "drop_bit 5 (0x40 OR w) = 2" and "(0x40 OR w) AND 0x1F = w"
proof -
  have w: "take_bit 5 w = w"
    using less_mask_eq [of w 5] assms by (simp add: take_bit_eq_mask)
  have m: "(0x1F :: u8) = mask 5" by (simp add: mask_eq_exp_minus_1)
  have bw: "bit w n \<Longrightarrow> n < 5" for n
    using w by (metis bit_take_bit_iff)
  have b2: "bit (2 :: u8) n \<longleftrightarrow> n = 1" for n
    using bit_exp_iff [of 1 n, where ?'a = u8] by (auto simp add: possible_bit_word)
  show "drop_bit 5 (0x40 OR w) = 2"
    by (rule bit_word_eqI) (auto simp add: bit_simps bit_0x40 b2 dest: bw)
  have "(0x40 OR w) AND 0x1F = (0x40 AND 0x1F) OR (w AND 0x1F)"
    by (simp add: bit.conj_disj_distrib2)
  moreover have "(0x40 :: u8) AND 0x1F = 0"
    by simp
  moreover have "w AND 0x1F = w"
    using less_mask_eq [of w 5] assms by (simp add: m)
  ultimately show "(0x40 OR w) AND 0x1F = w"
    by simp
qed


lemma unat_of_nat_u8: "n < 256 \<Longrightarrow> unat (of_nat n :: u8) = n"
  by (simp add: unat_of_nat)

lemma nth_after_prefix: "(pre @ x # xs) ! length pre = x"
  by simp

lemma nth_after_prefix1: "(pre @ x # y # xs) ! Suc (length pre) = y"
  by (simp add: nth_append)

lemma decode_bstr_encode_bstr:
  assumes "length d \<le> 255"
  shows "decode_bstr (pre @ encode_bstr d @ post) (length pre) =
         Inr (d, length pre + length (encode_bstr d))"
proof (cases "length d < 24")
  case True
  define w :: u8 where "w = of_nat (length d)"
  have u: "unat w = length d"
    using True by (simp add: w_def unat_of_nat_u8)
  have w32: "w < 32" and lt: "w < 24"
    using u True by (simp_all add: word_less_nat_alt)
  note h = hdr_small [OF w32]
  have h': "2 OR drop_bit 5 w = 2"
    using h(1) by simp
  have enc: "pre @ encode_bstr d @ post = pre @ (0x40 OR w) # (d @ post)"
    using True by (simp add: encode_bstr_def w_def Let_def)
  show ?thesis
    unfolding enc decode_bstr_def
    using True by (simp add: h h' lt u nth_after_prefix Let_def encode_bstr_def)
next
  case False
  define w :: u8 where "w = of_nat (length d)"
  have u: "unat w = length d"
    using assms by (simp add: w_def unat_of_nat_u8)
  have enc: "pre @ encode_bstr d @ post = pre @ 0x58 # w # (d @ post)"
    using False assms by (simp add: encode_bstr_def w_def Let_def)
  have h: "drop_bit 5 (0x58 :: u8) = 2" "(0x58 :: u8) AND 0x1F = 24"
    by simp_all
  show ?thesis
    unfolding enc decode_bstr_def
    using False assms
    by (simp add: h u nth_after_prefix nth_after_prefix1 Let_def encode_bstr_def)
qed

lemma decode_bstr_encode_large:
  assumes "256 \<le> length d"
  shows "decode_bstr (pre @ encode_bstr d @ post) (length pre) =
         Inl (InvalidArgument ''CBOR decode: large bstr not supported'')"
proof (cases "length d \<le> 0xFFFF")
  case True
  have enc: "pre @ encode_bstr d @ post =
      pre @ 0x59 # (of_nat (length d div 2 ^ 8) # of_nat (length d mod 2 ^ 8) # d @ post)"
    using True assms by (simp add: encode_bstr_def Let_def)
  have h: "drop_bit 5 (0x59 :: u8) = 2" "(0x59 :: u8) AND 0x1F = 25"
    by simp_all
  show ?thesis
    unfolding enc decode_bstr_def
    by (simp add: h nth_after_prefix Let_def)
next
  case False
  have enc: "pre @ encode_bstr d @ post =
      pre @ 0x5A # (of_nat (length d div 2 ^ 24 mod 2 ^ 8) # of_nat (length d div 2 ^ 16 mod 2 ^ 8) #
                    of_nat (length d div 2 ^ 8 mod 2 ^ 8) # of_nat (length d mod 2 ^ 8) # d @ post)"
    using False assms by (simp add: encode_bstr_def Let_def)
  have h: "drop_bit 5 (0x5A :: u8) = 2" "(0x5A :: u8) AND 0x1F = 26"
    by simp_all
  show ?thesis
    unfolding enc decode_bstr_def
    by (simp add: h nth_after_prefix Let_def)
qed


lemma decode_items_encoded:
  "\<forall>d\<in>set ds. length d \<le> 255 \<Longrightarrow>
   decode_items (pre @ concat (map encode_bstr ds) @ post) (length pre) (length ds) =
   Inr (ds, length pre + length (concat (map encode_bstr ds)))"
proof (induction ds arbitrary: pre)
  case Nil
  then show ?case by simp
next
  case (Cons d ds)
  have d: "length d \<le> 255" and ds: "\<forall>d\<in>set ds. length d \<le> 255"
    using Cons.prems by simp_all
  have first: "decode_bstr (pre @ encode_bstr d @ (concat (map encode_bstr ds) @ post)) (length pre) =
               Inr (d, length pre + length (encode_bstr d))"
    using d by (rule decode_bstr_encode_bstr)
  have rest: "decode_items ((pre @ encode_bstr d) @ concat (map encode_bstr ds) @ post)
                (length (pre @ encode_bstr d)) (length ds) =
              Inr (ds, length (pre @ encode_bstr d) + length (concat (map encode_bstr ds)))"
    using ds by (rule Cons.IH)
  show ?case
    using first rest by simp
qed

lemma decode_items_large:
  "\<exists>d\<in>set ds. 256 \<le> length d \<Longrightarrow>
   decode_items (pre @ concat (map encode_bstr ds) @ post) (length pre) (length ds) =
   Inl (InvalidArgument ''CBOR decode: large bstr not supported'')"
proof (induction ds arbitrary: pre)
  case Nil
  then show ?case by simp
next
  case (Cons d ds)
  show ?case
  proof (cases "256 \<le> length d")
    case True
    have "decode_bstr (pre @ encode_bstr d @ (concat (map encode_bstr ds) @ post)) (length pre) =
          Inl (InvalidArgument ''CBOR decode: large bstr not supported'')"
      using True by (rule decode_bstr_encode_large)
    then show ?thesis by simp
  next
    case False
    then have d: "length d \<le> 255" by simp
    have ds: "\<exists>d\<in>set ds. 256 \<le> length d"
      using Cons.prems False by simp
    have first: "decode_bstr (pre @ encode_bstr d @ (concat (map encode_bstr ds) @ post)) (length pre) =
                 Inr (d, length pre + length (encode_bstr d))"
      using d by (rule decode_bstr_encode_bstr)
    have rest: "decode_items ((pre @ encode_bstr d) @ concat (map encode_bstr ds) @ post)
                  (length (pre @ encode_bstr d)) (length ds) =
                Inl (InvalidArgument ''CBOR decode: large bstr not supported'')"
      using ds by (rule Cons.IH)
    show ?thesis
      using first rest by simp
  qed
qed

lemma encode_cose_sign1_layout:
  "encode_cose_sign1 m =
   [0x84] @ concat (map encode_bstr
      [protected_header m, unprotected_header m, payload m, signature m]) @ []"
  by (simp add: encode_cose_sign1_def encode_array_def)

lemma decode_array_header:
  "decode_array ([0x84] @ rest) 0 = decode_items ([0x84] @ rest) 1 4"
  by (simp add: decode_array_def del: decode_items.simps)

lemma cose_sign1_round_trip_short:
  assumes "length (protected_header m) \<le> 255" "length (unprotected_header m) \<le> 255"
    "length (payload m) \<le> 255" "length (signature m) \<le> 255"
  shows "decode_cose_sign1 (encode_cose_sign1 m) = Inr m"
proof -
  let ?ds = "[protected_header m, unprotected_header m, payload m, signature m]"
  have l1: "length [0x84 :: u8] = 1" and l4: "length ?ds = 4"
    by simp_all
  have "\<forall>d\<in>set ?ds. length d \<le> 255"
    using assms by simp
  then have "decode_items ([0x84] @ concat (map encode_bstr ?ds) @ []) (length [0x84 :: u8]) (length ?ds) =
             Inr (?ds, length [0x84 :: u8] + length (concat (map encode_bstr ?ds)))"
    by (rule decode_items_encoded)
  then have "decode_array ([0x84] @ concat (map encode_bstr ?ds) @ []) 0 =
             Inr (?ds, 1 + length (concat (map encode_bstr ?ds)))"
    unfolding l1 l4 decode_array_header .
  then show ?thesis
    unfolding encode_cose_sign1_layout decode_cose_sign1_def
    by simp
qed

lemma cose_sign1_large_field_fails:
  assumes "256 \<le> length (protected_header m) \<or> 256 \<le> length (unprotected_header m) \<or>
           256 \<le> length (payload m) \<or> 256 \<le> length (signature m)"
  shows "decode_cose_sign1 (encode_cose_sign1 m) =
         Inl (InvalidArgument ''CBOR decode: large bstr not supported'')"
proof -
  let ?ds = "[protected_header m, unprotected_header m, payload m, signature m]"
  have l1: "length [0x84 :: u8] = 1" and l4: "length ?ds = 4"
    by simp_all
  have "\<exists>d\<in>set ?ds. 256 \<le> length d"
    using assms by auto
  then have "decode_items ([0x84] @ concat (map encode_bstr ?ds) @ []) (length [0x84 :: u8]) (length ?ds) =
             Inl (InvalidArgument ''CBOR decode: large bstr not supported'')"
    by (rule decode_items_large)
  then have "decode_array ([0x84] @ concat (map encode_bstr ?ds) @ []) 0 =
             Inl (InvalidArgument ''CBOR decode: large bstr not supported'')"
    unfolding l1 l4 decode_array_header .
  then show ?thesis
    unfolding encode_cose_sign1_layout decode_cose_sign1_def
    by simp
qed

text \<open>
  C8.  The COSE\_Sign1 round trip fails on the code: \<^verbatim>\<open>encode_bstr\<close> writes lengths of
  256 and more with a 2-byte or 4-byte length field, which \<^verbatim>\<open>decode_bstr\<close> refuses.  The
  envelope with three empty fields and a 256-byte signature does not decode
  (\<open>cose_sign1_large_field_fails\<close> is the general statement, and
  \<open>cose_sign1_round_trip_short\<close> the round trip for fields of at most 255 bytes).
\<close>

theorem cose_sign1_round_trip_fails_at_256:
  "decode_cose_sign1 (encode_cose_sign1
     \<lparr>protected_header = [], unprotected_header = [], payload = [],
      signature = replicate 256 0\<rparr>) =
   Inl (InvalidArgument ''CBOR decode: large bstr not supported'')"
  by (rule cose_sign1_large_field_fails) simp

section \<open>High bits\<close>

lemma fold_update_upt:
  "n \<le> length xs \<Longrightarrow>
   fold (\<lambda>i ys. ys[i := f i]) [0..<n] xs = map f [0..<n] @ drop n xs"
proof (induction n)
  case 0
  then show ?case by simp
next
  case (Suc n)
  then have n: "n < length xs" by simp
  have "fold (\<lambda>i ys. ys[i := f i]) [0..<Suc n] xs = (map f [0..<n] @ drop n xs)[n := f n]"
    using Suc by simp
  also have "\<dots> = map f [0..<n] @ (drop n xs)[0 := f n]"
    by (simp add: list_update_append)
  also have "(drop n xs)[0 := f n] = f n # drop (Suc n) xs"
    using n by (simp add: Cons_nth_drop_Suc [symmetric])
  finally show ?case by simp
qed

lemma compute_high_bits_nth:
  assumes "length w \<le> length w1" "i < length w"
  shows "compute_high_bits w w1 d q ! i = high_bits_coeff d (w ! i)"
  using assms
  by (simp add: compute_high_bits_def fold_update_upt [where f = "\<lambda>i. high_bits_coeff d (w ! i)"]
      nth_append)

lemma uint_push_bit_one:
  "n < 32 \<Longrightarrow> uint (2 ^ n :: u32) = 2 ^ n"
  by (rule uint_2p) (simp add: word_gt_0 exp_eq_zero_iff)

lemma uint_ucast_u32_u64: "uint (ucast (x :: u32) :: u64) = uint x"
proof -
  have "uint x < 2 ^ 32"
    using uint_lt2p [of x] by simp
  then have "uint x < 2 ^ 64"
    by simp
  then show ?thesis
    by (simp add: unsigned_ucast_eq take_bit_int_eq_self)
qed

lemma uint_high_bits_coeff:
  fixes d r :: u32
  assumes "0 < d" "d < 32"
  shows "uint (high_bits_coeff d r) = (uint r + 2 ^ (unat d - 1)) div 2 ^ unat d"
proof -
  define n where "n = unat d"
  have n: "0 < n" "n < 32"
    using assms by (simp_all add: n_def word_less_nat_alt unat_gt_0)
  have d1: "unat (d - 1) = n - 1"
    using assms(1) by (simp add: n_def unat_minus_one word_neq_0_conv)
  have shift: "uint (2 ^ unat (d - 1) :: u32) = 2 ^ (n - 1)"
    using uint_push_bit_one [of "n - 1"] n by (simp add: d1)
  have divisor: "uint (2 ^ unat d :: u32) = 2 ^ n"
    using uint_push_bit_one [of n] n by (simp add: n_def [symmetric])
  have r: "0 \<le> uint r" "uint r < 2 ^ 32"
    using uint_lt2p [of r] by simp_all
  have p1: "(2::int) ^ (n - 1) \<le> 2 ^ 31"
    using n by (intro power_increasing) simp_all
  have pn: "(2::int) ^ n = 2 * 2 ^ (n - 1)"
    using n by (cases n) simp_all
  have sum: "uint ((ucast r :: u64) + ucast (2 ^ unat (d - 1) :: u32)) = uint r + 2 ^ (n - 1)"
  proof -
    have "uint r + 2 ^ (n - 1) < 2 ^ 64"
      using r p1 by simp
    moreover have "0 \<le> uint r + (2::int) ^ (n - 1)"
      using r by simp
    ultimately show ?thesis
      by (simp add: uint_word_ariths uint_ucast_u32_u64 shift)
  qed
  have quot: "uint (((ucast r :: u64) + ucast (2 ^ unat (d - 1) :: u32))
                div ucast (2 ^ unat d :: u32)) = (uint r + 2 ^ (n - 1)) div 2 ^ n"
    by (simp only: uint_div sum uint_ucast_u32_u64 divisor)
  have bound: "(uint r + 2 ^ (n - 1)) div 2 ^ n < 2 ^ 32"
  proof -
    have "2 ^ (n - 1) \<ge> (1::int)"
      by simp
    have "uint r + 2 ^ (n - 1) < 2 ^ 32 * (2 * 2 ^ (n - 1))"
    proof -
      have "uint r + 2 ^ (n - 1) < 2 ^ 32 + 2 ^ (n - 1)"
        using r by simp
      also have "\<dots> \<le> 2 ^ 32 * 2 ^ (n - 1) + 2 ^ 32 * 2 ^ (n - 1)"
        using \<open>2 ^ (n - 1) \<ge> (1::int)\<close> by (intro add_mono) simp_all
      finally show ?thesis by simp
    qed
    moreover have "(uint r + 2 ^ (n - 1)) div (2 * 2 ^ (n - 1)) * (2 * 2 ^ (n - 1))
                     + (uint r + 2 ^ (n - 1)) mod (2 * 2 ^ (n - 1)) = uint r + 2 ^ (n - 1)"
      by (rule div_mult_mod_eq)
    moreover have "0 \<le> (uint r + 2 ^ (n - 1)) mod (2 * 2 ^ (n - 1))"
      by simp
    ultimately have "(uint r + 2 ^ (n - 1)) div (2 * 2 ^ (n - 1)) * (2 * 2 ^ (n - 1))
                     < 2 ^ 32 * (2 * 2 ^ (n - 1))"
      by linarith
    then have "(uint r + 2 ^ (n - 1)) div (2 * 2 ^ (n - 1)) < 2 ^ 32"
      by (rule mult_right_less_imp_less) simp
    then show ?thesis
      by (simp only: pn)
  qed
  have nonneg: "0 \<le> (uint r + 2 ^ (n - 1)) div (2::int) ^ n"
    using r by (intro pos_imp_zdiv_nonneg_iff [THEN iffD2]) simp_all
  have "uint (high_bits_coeff d r) =
        take_bit 32 (uint (((ucast r :: u64) + ucast (2 ^ unat (d - 1) :: u32))
                div ucast (2 ^ unat d :: u32)))"
    by (simp add: high_bits_coeff_def Let_def unsigned_ucast_eq)
  also have "\<dots> = (uint r + 2 ^ (n - 1)) div 2 ^ n"
    unfolding quot using bound nonneg by (simp add: take_bit_int_eq_self)
  finally show ?thesis
    by (simp add: n_def)
qed

lemma round_to_power_of_two:
  fixes r h :: int
  assumes "0 < h"
  shows "- h \<le> r - ((r + h) div (2 * h)) * (2 * h)"
    and "r - ((r + h) div (2 * h)) * (2 * h) < h"
    and "- h \<le> r - r1 * (2 * h) \<Longrightarrow> r - r1 * (2 * h) < h \<Longrightarrow> r1 = (r + h) div (2 * h)"
proof -
  have m: "r + h = ((r + h) div (2 * h)) * (2 * h) + (r + h) mod (2 * h)"
    by (rule div_mult_mod_eq [symmetric])
  have lo: "0 \<le> (r + h) mod (2 * h)" and hi: "(r + h) mod (2 * h) < 2 * h"
    using assms by simp_all
  show "- h \<le> r - ((r + h) div (2 * h)) * (2 * h)"
    using m lo by linarith
  show "r - ((r + h) div (2 * h)) * (2 * h) < h"
    using m hi by linarith
  assume a: "- h \<le> r - r1 * (2 * h)" "r - r1 * (2 * h) < h"
  have "r + h = r1 * (2 * h) + (r + h - r1 * (2 * h))"
    by simp
  moreover have "0 \<le> r + h - r1 * (2 * h)" "r + h - r1 * (2 * h) < 2 * h"
    using a by linarith+
  ultimately have "(r + h) div (2 * h) = r1"
    by (intro int_div_pos_eq [where r = "r + h - r1 * (2 * h)"]) simp_all
  then show "r1 = (r + h) div (2 * h)"
    by simp
qed


text \<open>
  C6 (as the code has it).  \<^verbatim>\<open>compute_high_bits\<close> takes the bit count \<open>d\<close>, not
  \<open>\<alpha> = 2\<gamma>\<^sub>2\<close>: for \<open>1 \<le> d \<le> 31\<close> and every coefficient \<open>r\<close> of \<open>w\<close> it stores
  \<open>r1 = (r + 2^(d-1)) div 2^d\<close>, which is the unique \<open>r1\<close> with \<open>r = r1 * 2^d + r0\<close> and
  \<open>r0\<close> in \<open>[-2^(d-1), 2^(d-1))\<close>.  There is no corner case.
\<close>

theorem compute_high_bits_power_of_two:
  assumes "0 < d" "d < 32" "length w \<le> length w1" "i < length w"
  shows "uint (compute_high_bits w w1 d q ! i) = (uint (w ! i) + 2 ^ (unat d - 1)) div 2 ^ unat d
       \<and> - (2 ^ (unat d - 1)) \<le> uint (w ! i) - uint (compute_high_bits w w1 d q ! i) * 2 ^ unat d
       \<and> uint (w ! i) - uint (compute_high_bits w w1 d q ! i) * 2 ^ unat d < 2 ^ (unat d - 1)
       \<and> (\<forall>r1. - (2 ^ (unat d - 1)) \<le> uint (w ! i) - r1 * 2 ^ unat d
               \<and> uint (w ! i) - r1 * 2 ^ unat d < 2 ^ (unat d - 1)
               \<longrightarrow> r1 = uint (compute_high_bits w w1 d q ! i))"
proof -
  define h :: int where "h = 2 ^ (unat d - 1)"
  have n: "0 < unat d"
    using assms(1) by (simp add: unat_gt_0)
  have h: "0 < h" and pn: "(2::int) ^ unat d = 2 * h"
    using n by (cases "unat d"; simp add: h_def)+
  have r1: "uint (compute_high_bits w w1 d q ! i) = (uint (w ! i) + h) div (2 * h)"
    using assms by (simp add: compute_high_bits_nth uint_high_bits_coeff h_def pn [unfolded h_def])
  show ?thesis
    unfolding pn h_def [symmetric] r1
    using round_to_power_of_two [OF h, of "uint (w ! i)"] by blast
qed

theorem compute_high_bits_power_of_two_witness:
  "uint (compute_high_bits [4096, 8380416] [0, 0] 13 8380417 ! 0) = 1
   \<and> uint (compute_high_bits [4096, 8380416] [0, 0] 13 8380417 ! 1) = 1023"
  using compute_high_bits_power_of_two [of 13 "[4096, 8380416]" "[0, 0]" 0 8380417]
    compute_high_bits_power_of_two [of 13 "[4096, 8380416]" "[0, 0]" 1 8380417]
  by simp

text \<open>
  C6 as stated fails.  With \<open>\<alpha> = 2\<gamma>\<^sub>2 = 190464\<close> (ML-DSA-44) the coefficient
  \<open>r = q - 1\<close> has \<open>highBits = 0\<close> (the corner case), but the code returns 64 for \<open>d = 17\<close>
  and 32 for \<open>d = 18\<close>, the two bit counts next to \<open>\<alpha>\<close>.  With \<open>\<alpha> = 2^d\<close>, \<open>d = 13\<close>, the
  coefficient \<open>r = 4096 = \<alpha>/2\<close> has \<open>r0 = \<alpha>/2\<close> and \<open>highBits = 0\<close>, but the code
  returns 1.
\<close>

theorem compute_high_bits_counterexample:
  "compute_high_bits [8380416] [0] 17 8380417 = [64]
   \<and> compute_high_bits [8380416] [0] 18 8380417 = [32]
   \<and> high_bits_spec 8380417 (2 * ((8380417 - 1) div 88)) 8380416 = 0
   \<and> compute_high_bits [4096] [0] 13 8380417 = [1]
   \<and> high_bits_spec 8380417 (2 ^ 13) 4096 = 0"
  by (simp add: compute_high_bits_def high_bits_coeff_def high_bits_spec_def decompose_spec_def)

section \<open>Uniform sampling\<close>

lemma bits_needed_q: "bits_needed_loop (8380417 - 1) 0 = 23"
  by simp

lemma sample_uniform_loop_first_accept:
  assumes "\<forall>i<k. \<not> uniform_candidate bits s (pos + 4 * i) < modulus"
    and "uniform_candidate bits s (pos + 4 * k) < modulus"
  shows "sample_uniform_loop bits modulus s pos =
         Some (uniform_candidate bits s (pos + 4 * k), pos + 4 * (k + 1))"
  using assms
proof (induction k arbitrary: pos)
  case 0
  then show ?case
    by (subst sample_uniform_loop.simps) simp
next
  case (Suc k)
  have first: "\<not> uniform_candidate bits s pos < modulus"
    using Suc.prems(1) [rule_format, of 0] by simp
  have rest: "\<forall>i<k. \<not> uniform_candidate bits s (pos + 4 + 4 * i) < modulus"
  proof (intro allI impI)
    fix i assume "i < k"
    then show "\<not> uniform_candidate bits s (pos + 4 + 4 * i) < modulus"
      using Suc.prems(1) [rule_format, of "Suc i"] by (simp add: add.assoc)
  qed
  have last: "uniform_candidate bits s (pos + 4 + 4 * k) < modulus"
    using Suc.prems(2) by (simp add: add.assoc)
  have "sample_uniform_loop bits modulus s pos = sample_uniform_loop bits modulus s (pos + 4)"
    using first by (subst sample_uniform_loop.simps) simp
  also have "\<dots> = Some (uniform_candidate bits s (pos + 4 + 4 * k), pos + 4 + 4 * (k + 1))"
    using rest last by (rule Suc.IH)
  finally show ?case
    by (simp add: add.assoc)
qed

lemma mask23: "(push_bit 23 1 - 1 :: u32) = mask 23"
  by (simp add: mask_eq_exp_minus_1)

lemma m7f: "(0x7F :: u8) = mask 7"
  by (simp add: mask_eq_exp_minus_1)

lemma uniform_candidate_le23:
  "uniform_candidate 23 s pos = le23 (s pos) (s (pos + 1)) (s (pos + 2))"
proof -
  have u: "unat (23 :: u32) = 23" by simp
  show ?thesis
    unfolding uniform_candidate_def le23_def u mask23 m7f
  proof (rule bit_word_eqI)
    fix n assume n: "n < LENGTH(32)"
    consider "n < 8" | "8 \<le> n" "n < 16" | "16 \<le> n" "n < 23" | "23 \<le> n" "n < 24" | "24 \<le> n"
      by linarith
    then show "bit ((ucast (s pos) OR push_bit 8 (ucast (s (pos + 1))) OR
                push_bit 16 (ucast (s (pos + 2))) OR push_bit 24 (ucast (s (pos + 3)))) AND mask 23 :: u32) n
             = bit (ucast (s pos) OR push_bit 8 (ucast (s (pos + 1))) OR
                push_bit 16 (ucast (s (pos + 2) AND mask 7)) :: u32) n"
      using n by cases (auto simp add: bit_simps dest: bit_imp_le_length)
  qed
qed


lemma sample_uniform_q_first_accept:
  assumes "\<forall>i<k. \<not> le23 (s (pos + 4 * i)) (s (pos + 4 * i + 1)) (s (pos + 4 * i + 2)) < 8380417"
    and "le23 (s (pos + 4 * k)) (s (pos + 4 * k + 1)) (s (pos + 4 * k + 2)) < 8380417"
  shows "sample_uniform 8380417 s pos =
         Some (le23 (s (pos + 4 * k)) (s (pos + 4 * k + 1)) (s (pos + 4 * k + 2)), pos + 4 * (k + 1))"
  unfolding sample_uniform_def bits_needed_q
  using assms sample_uniform_loop_first_accept [of k 23 s pos 8380417]
  by (simp add: uniform_candidate_le23)

lemma rej_ntt_spec_accept:
  "le23 (s pos) (s (pos + 1)) (s (pos + 2)) < q \<Longrightarrow>
   rej_ntt_spec q s pos = Some (le23 (s pos) (s (pos + 1)) (s (pos + 2)), pos + 3)"
  by (subst rej_ntt_spec.simps) simp

text \<open>
  C4 (as the code has it).  \<^verbatim>\<open>sample_uniform\<close> with \<open>q = 8380417\<close> reads 4 bytes per
  attempt.  The candidate is the 23-bit little-endian integer of the first three
  bytes, the third masked to \<open>0x7F\<close>; the fourth byte is read and dropped.  The first
  candidate below \<open>q\<close> is returned, and the stream has then advanced by 4 bytes for every
  attempt made.
\<close>

theorem sample_uniform_four_bytes_per_attempt:
  assumes "\<forall>i<k. \<not> le23 (s (pos + 4 * i)) (s (pos + 4 * i + 1)) (s (pos + 4 * i + 2)) < 8380417"
    and "le23 (s (pos + 4 * k)) (s (pos + 4 * k + 1)) (s (pos + 4 * k + 2)) < 8380417"
  shows "sample_uniform 8380417 s pos =
         Some (le23 (s (pos + 4 * k)) (s (pos + 4 * k + 1)) (s (pos + 4 * k + 2)), pos + 4 * (k + 1))"
  using assms by (rule sample_uniform_q_first_accept)

theorem sample_uniform_four_bytes_per_attempt_witness:
  "sample_uniform 8380417 (\<lambda>i. if i < 4 then 0xFF else if i = 4 then 5 else 0) 0 = Some (5, 8)"
  using sample_uniform_four_bytes_per_attempt
    [of 1 "\<lambda>i. if i < 4 then 0xFF else if i = 4 then 5 else 0" 0]
  by (simp add: le23_def)

text \<open>
  C4 as stated fails: on the stream \<open>0, 0, 0, 1, 0, 0, \<dots>\<close> the code returns the
  coefficients \<open>0, 0\<close> and has read 8 bytes, the reference sampler of the specification
  (3 bytes per attempt) returns \<open>0, 1\<close> and has read 6.
\<close>

theorem sample_uniform_counterexample:
  "sample_polynomial_uniform (\<lambda>i. if i = 3 then 1 else 0) 0 2 8380417 = Some ([0, 0], 8)
   \<and> rej_ntt_spec_polynomial (\<lambda>i. if i = 3 then 1 else 0) 0 2 8380417 = Some ([0, 1], 6)"
proof -
  let ?s = "\<lambda>i::nat. if i = 3 then 1 else (0::u8)"
  have c1: "sample_uniform 8380417 ?s 0 = Some (0, 4)"
    using sample_uniform_q_first_accept [of 0 ?s 0] by (simp add: le23_def)
  have c2: "sample_uniform 8380417 ?s 4 = Some (0, 8)"
    using sample_uniform_q_first_accept [of 0 ?s 4] by (simp add: le23_def)
  have r1: "rej_ntt_spec 8380417 ?s 0 = Some (0, 3)"
    using rej_ntt_spec_accept [of ?s 0 8380417] by (simp add: le23_def)
  have r2: "rej_ntt_spec 8380417 ?s 3 = Some (1, 6)"
    using rej_ntt_spec_accept [of ?s 3 8380417] by (simp add: le23_def)
  show ?thesis
    by (simp add: numeral_2_eq_2 c1 c2 r1 r2)
qed

section \<open>Centered binomial sampling\<close>

lemma low_bit_range: "0 \<le> uint ((b :: u8) AND 1)" "uint ((b :: u8) AND 1) \<le> 1"
proof -
  have "uint (b AND 1) = uint b mod 2"
    by (simp add: and_one_eq uint_mod)
  then show "0 \<le> uint (b AND 1)" "uint (b AND 1) \<le> 1"
    by simp_all
qed

lemma binomial_add_eq:
  "binomial_add s pos n acc = (acc + (\<Sum>j<n. uint (s (pos + j) AND 1)), pos + n)"
proof (induction n arbitrary: pos acc)
  case 0
  then show ?case by simp
next
  case (Suc n)
  have "(\<Sum>j<Suc n. uint (s (pos + j) AND 1)) =
        uint (s pos AND 1) + (\<Sum>j<n. uint (s (pos + 1 + j) AND 1))"
    by (subst sum.lessThan_Suc_shift) simp
  then show ?case
    by (simp add: Suc.IH)
qed

lemma binomial_sub_eq:
  "binomial_sub s pos n acc = (acc - (\<Sum>j<n. uint (s (pos + j) AND 1)), pos + n)"
proof (induction n arbitrary: pos acc)
  case 0
  then show ?case by simp
next
  case (Suc n)
  have "(\<Sum>j<Suc n. uint (s (pos + j) AND 1)) =
        uint (s pos AND 1) + (\<Sum>j<n. uint (s (pos + 1 + j) AND 1))"
    by (subst sum.lessThan_Suc_shift) simp
  then show ?case
    by (simp add: Suc.IH)
qed

lemma sample_binomial_coefficient_eq:
  "sample_binomial_coefficient s pos eta =
     ((\<Sum>j<unat eta. uint (s (pos + j) AND 1)) - (\<Sum>j<unat eta. uint (s (pos + unat eta + j) AND 1)),
      pos + 2 * unat eta)"
  by (simp add: sample_binomial_coefficient_def binomial_add_eq binomial_sub_eq)

lemma low_bit_sum_range:
  fixes s :: xof_stream
  shows "0 \<le> (\<Sum>j<n. uint (s (p + j) AND 1))" "(\<Sum>j<n. uint (s (p + j) AND 1)) \<le> int n"
proof -
  show "0 \<le> (\<Sum>j<n. uint (s (p + j) AND 1))"
    by (rule sum_nonneg) (rule low_bit_range)
  have "(\<Sum>j<n. uint (s (p + j) AND 1)) \<le> (\<Sum>j<n. 1)"
    by (rule sum_mono) (rule low_bit_range)
  then show "(\<Sum>j<n. uint (s (p + j) AND 1)) \<le> int n"
    by simp
qed

lemma sample_binomial_coefficient_range:
  "- int (unat eta) \<le> fst (sample_binomial_coefficient s pos eta)"
  "fst (sample_binomial_coefficient s pos eta) \<le> int (unat eta)"
  using low_bit_sum_range [where n = "unat eta" and s = s and p = pos]
    low_bit_sum_range [where n = "unat eta" and s = s and p = "pos + unat eta"]
  by (simp_all add: sample_binomial_coefficient_eq)

lemma sample_polynomial_binomial_eq:
  "sample_polynomial_binomial s pos degree eta modulus =
     (map (\<lambda>i. store_coefficient (fst (sample_binomial_coefficient s (pos + 2 * unat eta * i) eta)) modulus)
        [0..<degree],
      pos + 2 * unat eta * degree)"
proof (induction degree arbitrary: pos)
  case 0
  then show ?case by simp
next
  case (Suc degree)
  have "sample_polynomial_binomial s pos (Suc degree) eta modulus =
        (store_coefficient (fst (sample_binomial_coefficient s pos eta)) modulus #
         map (\<lambda>i. store_coefficient
                (fst (sample_binomial_coefficient s (pos + 2 * unat eta + 2 * unat eta * i) eta)) modulus)
           [0..<degree],
         pos + 2 * unat eta + 2 * unat eta * degree)"
    by (simp add: sample_binomial_coefficient_eq Suc.IH)
  also have "\<dots> = (map (\<lambda>i. store_coefficient
                (fst (sample_binomial_coefficient s (pos + 2 * unat eta * i) eta)) modulus)
           [0..<Suc degree], pos + 2 * unat eta * Suc degree)"
    by (simp add: map_upt_Suc add.assoc del: upt_Suc)
  finally show ?case .
qed

lemma store_coefficient_less:
  "0 < modulus \<Longrightarrow> store_coefficient c modulus < modulus"
  by (simp add: store_coefficient_def word_mod_less_divisor)

lemma store_coefficient_nonneg:
  assumes "0 \<le> c" "c < uint modulus" "uint modulus \<le> 2 ^ 31"
  shows "uint (store_coefficient c modulus) = c"
proof -
  define x :: u32 where "x = word_of_int c"
  have c32: "c < 2 ^ 32"
    using assms by simp
  have ux: "uint x = c"
    using assms(1) c32 by (simp add: x_def uint_word_of_int take_bit_int_eq_self flip: take_bit_eq_mod)
  have lt: "x < modulus"
    using ux assms(2) by (simp add: word_less_def)
  have m1: "x mod modulus = x"
    using lt by (rule mod_word_less [THEN trans]) simp
  have "uint (x + modulus) = (uint x + uint modulus) mod 2 ^ 32"
    by (simp add: uint_word_ariths)
  also have "\<dots> = uint x + uint modulus"
    using ux assms by simp
  finally have sum: "uint (x + modulus) = c + uint modulus"
    using ux by simp
  have "uint ((x + modulus) mod modulus) = (c + uint modulus) mod uint modulus"
    by (simp add: uint_mod sum)
  also have "\<dots> = c"
    using assms by simp
  finally show ?thesis
    by (simp add: store_coefficient_def x_def [symmetric] m1)
qed

text \<open>
  C5 (as the code has it).  \<^verbatim>\<open>sample_polynomial_binomial\<close> reads \<open>2\<eta>\<close> bytes per
  coefficient, not \<open>2\<eta>\<close> bits: coefficient \<open>i\<close> is the sum of the low bits of the \<open>\<eta>\<close>
  bytes from \<open>pos + 2\<eta>i\<close> minus the sum of the low bits of the next \<open>\<eta>\<close> bytes.  It lies
  in \<open>[-\<eta>, \<eta>]\<close>; the stored value is below the modulus, and it is the coefficient
  itself when that is not negative.
\<close>

theorem sample_polynomial_binomial_bytewise:
  assumes "i < degree" "unat eta < unat modulus" "unat modulus \<le> 2 ^ 31"
  shows "snd (sample_polynomial_binomial s pos degree eta modulus) = pos + 2 * unat eta * degree
       \<and> length (fst (sample_polynomial_binomial s pos degree eta modulus)) = degree
       \<and> sample_binomial_coefficient s (pos + 2 * unat eta * i) eta =
           ((\<Sum>j<unat eta. uint (s (pos + 2 * unat eta * i + j) AND 1))
            - (\<Sum>j<unat eta. uint (s (pos + 2 * unat eta * i + unat eta + j) AND 1)),
            pos + 2 * unat eta * i + 2 * unat eta)
       \<and> - int (unat eta) \<le> fst (sample_binomial_coefficient s (pos + 2 * unat eta * i) eta)
       \<and> fst (sample_binomial_coefficient s (pos + 2 * unat eta * i) eta) \<le> int (unat eta)
       \<and> fst (sample_polynomial_binomial s pos degree eta modulus) ! i < modulus
       \<and> (0 \<le> fst (sample_binomial_coefficient s (pos + 2 * unat eta * i) eta) \<longrightarrow>
            uint (fst (sample_polynomial_binomial s pos degree eta modulus) ! i) =
            fst (sample_binomial_coefficient s (pos + 2 * unat eta * i) eta))"
proof -
  let ?c = "fst (sample_binomial_coefficient s (pos + 2 * unat eta * i) eta)"
  let ?poly = "fst (sample_polynomial_binomial s pos degree eta modulus)"
  have nth: "?poly ! i = store_coefficient ?c modulus"
    using assms(1) by (simp add: sample_polynomial_binomial_eq)
  have m0: "0 < modulus"
    using assms(2) by (simp add: word_less_nat_alt)
  have um: "uint modulus \<le> 2 ^ 31"
    using of_nat_mono [OF assms(3), where ?'a = int] by simp
  have lo: "- int (unat eta) \<le> ?c" and hi: "?c \<le> int (unat eta)"
    by (rule sample_binomial_coefficient_range)+
  have "uint eta < uint modulus"
    using assms(2) by (simp add: word_less_nat_alt [symmetric] word_less_def)
  then have lt: "?c < uint modulus"
    using hi by simp
  have c1: "snd (sample_polynomial_binomial s pos degree eta modulus) = pos + 2 * unat eta * degree"
    by (simp add: sample_polynomial_binomial_eq)
  have c2: "length ?poly = degree"
    by (simp add: sample_polynomial_binomial_eq)
  have c3: "sample_binomial_coefficient s (pos + 2 * unat eta * i) eta =
           ((\<Sum>j<unat eta. uint (s (pos + 2 * unat eta * i + j) AND 1))
            - (\<Sum>j<unat eta. uint (s (pos + 2 * unat eta * i + unat eta + j) AND 1)),
            pos + 2 * unat eta * i + 2 * unat eta)"
    by (rule sample_binomial_coefficient_eq)
  have c6: "?poly ! i < modulus"
    unfolding nth using m0 by (rule store_coefficient_less)
  have c7: "0 \<le> ?c \<longrightarrow> uint (?poly ! i) = ?c"
    unfolding nth using lt um by (simp add: store_coefficient_nonneg)
  from c1 c2 c3 lo hi c6 c7 show ?thesis
    by (intro conjI)
qed

lemma two_Suc: "(2::nat) = Suc (Suc 0)"
  by simp

lemma binomial_add_2:
  "binomial_add s pos 2 acc = (acc + uint (s pos AND 1) + uint (s (pos + 1) AND 1), pos + 2)"
  by (subst two_Suc) simp

lemma binomial_sub_2:
  "binomial_sub s pos 2 acc = (acc - uint (s pos AND 1) - uint (s (pos + 1) AND 1), pos + 2)"
  by (subst two_Suc) simp

lemma sample_binomial_coefficient_2:
  "sample_binomial_coefficient s pos 2 =
     (uint (s pos AND 1) + uint (s (pos + 1) AND 1)
        - uint (s (pos + 2) AND 1) - uint (s (pos + 3) AND 1), pos + 4)"
  by (simp add: sample_binomial_coefficient_def binomial_add_2 binomial_sub_2 numeral_3_eq_3)

theorem sample_polynomial_binomial_bytewise_witness:
  "snd (sample_polynomial_binomial (\<lambda>i. if i = 0 then 1 else 0) 0 2 2 8380417) = 8
   \<and> length (fst (sample_polynomial_binomial (\<lambda>i. if i = 0 then 1 else 0) 0 2 2 8380417)) = 2
   \<and> uint (fst (sample_polynomial_binomial (\<lambda>i. if i = 0 then 1 else 0) 0 2 2 8380417) ! 0) = 1"
proof -
  let ?s = "\<lambda>i::nat. if i = 0 then 1 else (0::u8)"
  have c: "sample_binomial_coefficient ?s 0 2 = (1, 4)"
    by (simp add: sample_binomial_coefficient_2)
  have h: "(0::nat) < 2" "unat (2::u32) < unat (8380417::u32)" "unat (8380417::u32) \<le> 2 ^ 31"
    by simp_all
  note t = sample_polynomial_binomial_bytewise [OF h, of ?s 0]
  have "snd (sample_polynomial_binomial ?s 0 2 2 8380417) = 0 + 2 * unat (2::u32) * 2"
    by (rule t [THEN conjunct1])
  moreover have "length (fst (sample_polynomial_binomial ?s 0 2 2 8380417)) = 2"
    by (rule t [THEN conjunct2, THEN conjunct1])
  moreover have "0 \<le> fst (sample_binomial_coefficient ?s (0 + 2 * unat (2::u32) * 0) 2) \<longrightarrow>
        uint (fst (sample_polynomial_binomial ?s 0 2 2 8380417) ! 0) =
        fst (sample_binomial_coefficient ?s (0 + 2 * unat (2::u32) * 0) 2)"
    by (rule t [THEN conjunct2, THEN conjunct2, THEN conjunct2, THEN conjunct2, THEN conjunct2,
          THEN conjunct2])
  ultimately show ?thesis
    by (simp add: c)
qed

text \<open>
  C5 as stated fails: on the stream whose bytes are all \<open>0x03\<close>, two coefficients with
  \<open>\<eta> = 2\<close> cost the code 8 bytes and come out as \<open>0, 0\<close>; the bit-packed sampler of the
  specification reads 1 byte and returns \<open>2, 0\<close>.
\<close>

theorem sample_polynomial_binomial_counterexample:
  "sample_polynomial_binomial (\<lambda>i. 3) 0 2 2 8380417 = ([0, 0], 8)
   \<and> cbd_spec_polynomial (\<lambda>i. 3) 0 2 2 8380417 = ([2, 0], 1)"
proof -
  have "sample_polynomial_binomial (\<lambda>i. 3) 0 2 2 8380417 = ([0, 0], 8)"
    by (subst two_Suc) (simp add: sample_binomial_coefficient_2 store_coefficient_def)
  moreover have "cbd_spec_polynomial (\<lambda>i. 3) 0 2 2 8380417 = ([2, 0], 1)"
    by (subst two_Suc) (simp add: cbd2_spec_def bit_at_def)
  ultimately show ?thesis
    by simp
qed

text \<open>
  The stored value of a negative coefficient: \<open>-1\<close> is stored as \<open>(2^32 - 1) mod q\<close>,
  not as \<open>q - 1\<close>, because the reduction is done in unsigned arithmetic.
\<close>

lemma store_coefficient_minus_one:
  "store_coefficient (- 1) 8380417 = 4193791"
  by (simp add: store_coefficient_def)

section \<open>Challenge sampling: weight of the sampled polynomial\<close>

lemma sample_uniform_loop_returns:
  "uniform_candidate bits s (pos + 4 * k) < modulus \<Longrightarrow>
   \<exists>x pos'. sample_uniform_loop bits modulus s pos = Some (x, pos') \<and> x < modulus"
proof (induction k arbitrary: pos)
  case 0
  then show ?case
    by (subst sample_uniform_loop.simps) simp
next
  case (Suc k)
  show ?case
  proof (cases "uniform_candidate bits s pos < modulus")
    case True
    then show ?thesis
      by (subst sample_uniform_loop.simps) simp
  next
    case False
    have "uniform_candidate bits s (pos + 4 + 4 * k) < modulus"
      using Suc.prems by (simp add: add.assoc)
    then have "\<exists>x pos'. sample_uniform_loop bits modulus s (pos + 4) = Some (x, pos') \<and> x < modulus"
      by (rule Suc.IH)
    moreover have "sample_uniform_loop bits modulus s pos = sample_uniform_loop bits modulus s (pos + 4)"
      using False by (subst sample_uniform_loop.simps) simp
    ultimately show ?thesis
      by simp
  qed
qed

lemma sample_uniform_returns:
  "accepts_eventually s modulus \<Longrightarrow>
   \<exists>x pos'. sample_uniform modulus s pos = Some (x, pos') \<and> x < modulus"
  unfolding accepts_eventually_def sample_uniform_def
  using sample_uniform_loop_returns by blast

lemma length_swap_positions [simp]: "length (swap_positions ps i j) = length ps"
  by (simp add: swap_positions_def)

lemma set_swap_positions:
  "i < length ps \<Longrightarrow> j < length ps \<Longrightarrow> set (swap_positions ps i j) = set ps"
  by (simp add: swap_positions_def set_swap)

lemma distinct_swap_positions:
  "i < length ps \<Longrightarrow> j < length ps \<Longrightarrow> distinct (swap_positions ps i j) = distinct ps"
  by (simp add: swap_positions_def distinct_swap)

lemma fisher_yates_returns:
  assumes "i + r \<le> unat n" "length ps = unat n" "distinct ps"
    and "\<forall>k. i \<le> k \<and> k < i + r \<longrightarrow> accepts_eventually s (n - of_nat k)"
  shows "\<exists>ps' pos'. fisher_yates s n i r ps pos = Some (ps', pos') \<and>
           length ps' = unat n \<and> distinct ps' \<and> set ps' = set ps"
  using assms
proof (induction r arbitrary: i ps pos)
  case 0
  then show ?case by simp
next
  case (Suc r)
  have n32: "unat n < 2 ^ 32"
    using unsigned_less [of n, where ?'a = nat] by simp
  have i: "i < unat n"
    using Suc.prems(1) by simp
  have acc: "accepts_eventually s (n - of_nat i)"
    using Suc.prems(4) by simp
  obtain x pos1 where x: "sample_uniform (n - of_nat i) s pos = Some (x, pos1)" "x < n - of_nat i"
    using sample_uniform_returns [OF acc, of pos] by blast
  have ui: "unat (of_nat i :: u32) = i"
    using i n32 by (simp add: unat_of_nat)
  have le: "(of_nat i :: u32) \<le> n"
    using i ui by (simp add: word_le_nat_alt)
  have un: "unat (n - of_nat i) = unat n - i"
    using le ui by (simp add: unat_sub)
  have ux: "unat x < unat n - i"
    using x(2) un by (simp add: word_less_nat_alt)
  have "unat (of_nat i + x) = (i + unat x) mod 2 ^ 32"
    by (simp add: unat_word_ariths ui)
  also have "\<dots> = i + unat x"
    using ux n32 by simp
  finally have j: "unat (of_nat i + x) = i + unat x" .
  let ?ps = "swap_positions ps i (unat (of_nat i + x))"
  have jn: "i + unat x < length ps" and il: "i < length ps"
    using ux i Suc.prems(2) by simp_all
  have 1: "Suc i + r \<le> unat n"
    using Suc.prems(1) by simp
  have 2: "length ?ps = unat n"
    using Suc.prems(2) by simp
  have 3: "distinct ?ps"
    using Suc.prems(3) il jn by (simp add: j distinct_swap_positions)
  have 4: "\<forall>k. Suc i \<le> k \<and> k < Suc i + r \<longrightarrow> accepts_eventually s (n - of_nat k)"
    using Suc.prems(4) by simp
  obtain ps' pos' where r: "fisher_yates s n (Suc i) r ?ps pos1 = Some (ps', pos')"
      "length ps' = unat n" "distinct ps'" "set ps' = set ?ps"
    using Suc.IH [OF 1 2 3 4, of pos1] by blast
  have "set ?ps = set ps"
    using il jn by (simp add: j set_swap_positions)
  then show ?case
    using x(1) r by simp
qed


lemma assign_signs_props:
  assumes "inj_on (\<lambda>k. unat (P ! k)) {i..<i + r}"
    and "\<forall>k\<in>{i..<i + r}. unat (P ! k) < length c"
  shows "length (fst (assign_signs s q P i r c pos)) = length c \<and>
         (\<forall>p<length c.
            (p \<in> (\<lambda>k. unat (P ! k)) ` {i..<i + r} \<longrightarrow>
               fst (assign_signs s q P i r c pos) ! p = 1 \<or>
               fst (assign_signs s q P i r c pos) ! p = q - 1) \<and>
            (p \<notin> (\<lambda>k. unat (P ! k)) ` {i..<i + r} \<longrightarrow>
               fst (assign_signs s q P i r c pos) ! p = c ! p))"
  using assms
proof (induction r arbitrary: i c pos)
  case 0
  then show ?case by simp
next
  case (Suc r)
  let ?t = "unat (P ! i)"
  let ?v = "if s pos AND 1 \<noteq> 0 then 1 else q - 1"
  let ?c1 = "c[?t := ?v]"
  let ?I = "(\<lambda>k. unat (P ! k)) ` {Suc i..<Suc i + r}"
  let ?R = "fst (assign_signs s q P (Suc i) r ?c1 (pos + 1))"
  have range: "{i..<i + Suc r} = insert i {Suc i..<Suc i + r}"
    by auto
  have inj: "inj_on (\<lambda>k. unat (P ! k)) {Suc i..<Suc i + r}"
    using Suc.prems(1) by (rule inj_on_subset) auto
  have bnd: "\<forall>k\<in>{Suc i..<Suc i + r}. unat (P ! k) < length ?c1"
    using Suc.prems(2) by simp
  have t: "?t < length c"
    using Suc.prems(2) by simp
  have tI: "?t \<notin> ?I"
  proof
    assume "?t \<in> ?I"
    then obtain k where k: "k \<in> {Suc i..<Suc i + r}" "unat (P ! k) = ?t"
      by auto
    then have "k = i"
      using Suc.prems(1) by (auto dest!: inj_onD [where x = k and y = i])
    then show False
      using k(1) by simp
  qed
  note IH = Suc.IH [OF inj bnd, of "pos + 1"]
  have ih1: "length ?R = length ?c1"
    using IH by (rule conjunct1)
  have ih2: "?R ! p = 1 \<or> ?R ! p = q - 1" if "p < length ?c1" "p \<in> ?I" for p
    using IH [THEN conjunct2, rule_format, OF that(1), THEN conjunct1, rule_format, OF that(2)] .
  have ih3: "?R ! p = ?c1 ! p" if "p < length ?c1" "p \<notin> ?I" for p
    using IH [THEN conjunct2, rule_format, OF that(1), THEN conjunct2, rule_format, OF that(2)] .
  have img: "(\<lambda>k. unat (P ! k)) ` {i..<i + Suc r} = insert ?t ?I"
    unfolding range by simp
  have res: "fst (assign_signs s q P i (Suc r) c pos) = ?R"
    by simp
  show ?case
    unfolding res img
  proof (intro conjI allI impI)
    show "length ?R = length c"
      using ih1 by simp
  next
    fix p assume p: "p < length c" and "p \<in> insert ?t ?I"
    then consider "p \<in> ?I" | "p = ?t" "p \<notin> ?I"
      by auto
    then show "?R ! p = 1 \<or> ?R ! p = q - 1"
    proof cases
      case 1
      then show ?thesis using ih2 [of p] p by simp
    next
      case 2
      then have "?R ! p = ?c1 ! p"
        using ih3 [of p] p by simp
      then show ?thesis
        using 2(1) t by simp
    qed
  next
    fix p assume p: "p < length c" and n: "p \<notin> insert ?t ?I"
    then have "?R ! p = ?c1 ! p"
      using ih3 [of p] by simp
    then show "?R ! p = c ! p"
      using n by simp
  qed
qed

lemma initial_positions:
  fixes n :: u32
  shows "length (map of_nat [0..<unat n] :: u32 list) = unat n"
    and "distinct (map of_nat [0..<unat n] :: u32 list)"
    and "\<forall>x\<in>set (map of_nat [0..<unat n] :: u32 list). unat x < unat n"
proof -
  have n32: "unat n < 2 ^ 32"
    using unsigned_less [of n, where ?'a = nat] by simp
  have u: "\<And>k. k < unat n \<Longrightarrow> unat (of_nat k :: u32) = k"
    using n32 by (simp add: unat_of_nat)
  show "length (map of_nat [0..<unat n] :: u32 list) = unat n"
    by simp
  have "inj_on (of_nat :: nat \<Rightarrow> u32) {0..<unat n}"
  proof (rule inj_onI)
    fix a b assume a: "a \<in> {0..<unat n}" and b: "b \<in> {0..<unat n}"
      and eq: "(of_nat a :: u32) = of_nat b"
    have a': "a < unat n" and b': "b < unat n"
      using a b by simp_all
    have "unat (of_nat a :: u32) = unat (of_nat b :: u32)"
      using eq by (rule arg_cong)
    then show "a = b"
      unfolding u [OF a'] u [OF b'] .
  qed
  then show "distinct (map of_nat [0..<unat n] :: u32 list)"
    by (simp add: distinct_map)
  show "\<forall>x\<in>set (map of_nat [0..<unat n] :: u32 list). unat x < unat n"
  proof
    fix x :: u32 assume "x \<in> set (map of_nat [0..<unat n])"
    then obtain k where k: "k < unat n" "x = of_nat k"
      by auto
    show "unat x < unat n"
      unfolding k(2) u [OF k(1)] by (rule k(1))
  qed
qed


lemma accepts_eventually_zero_stream:
  "modulus \<noteq> 0 \<Longrightarrow> accepts_eventually (\<lambda>i. 0) modulus"
  by (simp add: accepts_eventually_def uniform_candidate_def word_gt_0)

lemma modulus_in_use_nonzero:
  assumes "i < 39"
  shows "(256 :: u32) - of_nat i \<noteq> 0"
proof
  assume "(256 :: u32) - of_nat i = 0"
  then have "(of_nat i :: u32) = 256"
    by simp
  then have "unat (of_nat i :: u32) = unat (256 :: u32)"
    by (rule arg_cong)
  moreover have "unat (of_nat i :: u32) = i"
    using assms by (simp add: unat_of_nat)
  ultimately show False
    using assms by simp
qed

text \<open>
  C9.  \<^verbatim>\<open>sample_challenge\<close> returns a polynomial with exactly \<open>tau\<close> nonzero coefficients,
  each \<open>1\<close> or \<open>q - 1\<close>, and zeros elsewhere: for every \<open>tau \<le> n\<close>, every modulus
  \<open>q > 1\<close> and every output buffer of \<open>n\<close> entries (in ML-DSA \<open>n = 256\<close>,
  \<open>tau\<close> is 39, 49 or 60 and \<open>q = 8380417\<close>).  The seed enters through its SHAKE-256 output
  stream \<open>s\<close>; the rejection loops of the shuffle return when the stream keeps offering
  an accepted window for each modulus \<open>n - i\<close> in use, which is the hypothesis on \<open>s\<close>.
\<close>

theorem sample_challenge_weight:
  assumes "unat tau \<le> unat n" "length c = unat n" "1 < q"
    and "\<forall>i<unat tau. accepts_eventually s (n - of_nat i)"
  shows "\<exists>c' pos'. sample_challenge c s tau n q = Some (c', pos') \<and>
           length c' = unat n \<and>
           length (filter (\<lambda>x. x \<noteq> 0) c') = unat tau \<and>
           (\<forall>x\<in>set c'. x = 0 \<or> x = 1 \<or> x = q - 1)"
proof -
  let ?init = "map of_nat [0..<unat n] :: u32 list"
  have live: "\<forall>k. 0 \<le> k \<and> k < 0 + unat tau \<longrightarrow> accepts_eventually s (n - of_nat k)"
    using assms(4) by simp
  have tn: "0 + unat tau \<le> unat n"
    using assms(1) by simp
  obtain P pos1 where fy: "fisher_yates s n 0 (unat tau) ?init 0 = Some (P, pos1)"
    and lenP: "length P = unat n" and distP: "distinct P" and setP: "set P = set ?init"
    using fisher_yates_returns [OF tn initial_positions(1) initial_positions(2) live, of 0]
    by blast
  let ?I = "(\<lambda>k. unat (P ! k)) ` {0..<0 + unat tau}"
  let ?zero = "replicate (length c) (0 :: u32)"
  let ?R = "fst (assign_signs s q P 0 (unat tau) ?zero pos1)"
  have inj: "inj_on (\<lambda>k. unat (P ! k)) {0..<0 + unat tau}"
  proof (rule inj_onI)
    fix a b assume a: "a \<in> {0..<0 + unat tau}" and b: "b \<in> {0..<0 + unat tau}"
      and eq: "unat (P ! a) = unat (P ! b)"
    have "P ! a = P ! b"
      using eq by (rule unsigned_word_eqI)
    moreover have "a < length P" "b < length P"
      using a b assms(1) lenP by simp_all
    ultimately show "a = b"
      using distP by (simp add: nth_eq_iff_index_eq)
  qed
  have bnd: "\<forall>k\<in>{0..<0 + unat tau}. unat (P ! k) < length ?zero"
  proof
    fix k assume "k \<in> {0..<0 + unat tau}"
    then have "k < length P"
      using assms(1) lenP by simp
    then have "P ! k \<in> set ?init"
      using setP nth_mem by blast
    then have "unat (P ! k) < unat n"
      by (rule initial_positions(3) [of n, THEN bspec])
    then show "unat (P ! k) < length ?zero"
      using assms(2) by simp
  qed
  note props = assign_signs_props [OF inj bnd, of s q pos1]
  have lenR: "length ?R = unat n"
    using props [THEN conjunct1] assms(2) by simp
  have inI: "?R ! p = 1 \<or> ?R ! p = q - 1" if "p < unat n" "p \<in> ?I" for p
  proof -
    have "p < length ?zero" using that(1) assms(2) by simp
    then show ?thesis
      using props [THEN conjunct2, rule_format, of p, THEN conjunct1] that(2) by blast
  qed
  have notI: "?R ! p = 0" if "p < unat n" "p \<notin> ?I" for p
  proof -
    have p: "p < length ?zero" using that(1) assms(2) by simp
    then have "?R ! p = ?zero ! p"
      using props [THEN conjunct2, rule_format, of p, THEN conjunct2] that(2) by blast
    then show ?thesis
      using that(1) assms(2) by simp
  qed
  have q1: "q - 1 \<noteq> 0"
    using assms(3) by auto
  have Ilt: "p < unat n" if "p \<in> ?I" for p
    using that bnd assms(2) by auto
  have support: "{p. p < length ?R \<and> ?R ! p \<noteq> 0} = ?I"
  proof (intro set_eqI iffI)
    fix p assume "p \<in> {p. p < length ?R \<and> ?R ! p \<noteq> 0}"
    then have "p < unat n" "?R ! p \<noteq> 0"
      using lenR by simp_all
    then show "p \<in> ?I"
      using notI [of p] by blast
  next
    fix p assume p: "p \<in> ?I"
    then have "p < unat n" by (rule Ilt)
    moreover from this p have "?R ! p = 1 \<or> ?R ! p = q - 1" by (rule inI)
    ultimately show "p \<in> {p. p < length ?R \<and> ?R ! p \<noteq> 0}"
      using q1 lenR by auto
  qed
  have "length (filter (\<lambda>x. x \<noteq> 0) ?R) = card {p. p < length ?R \<and> ?R ! p \<noteq> 0}"
    by (rule length_filter_conv_card)
  also have "\<dots> = card ?I"
    by (simp only: support)
  also have "\<dots> = card {0..<0 + unat tau}"
    using inj by (rule card_image)
  finally have weight: "length (filter (\<lambda>x. x \<noteq> 0) ?R) = unat tau"
    by simp
  have vals: "\<forall>x\<in>set ?R. x = 0 \<or> x = 1 \<or> x = q - 1"
  proof
    fix x assume "x \<in> set ?R"
    then obtain p where p: "p < length ?R" "x = ?R ! p"
      by (auto simp add: in_set_conv_nth)
    then have pn: "p < unat n"
      using lenR by simp
    show "x = 0 \<or> x = 1 \<or> x = q - 1"
      using inI [OF pn] notI [OF pn] p(2) by blast
  qed
  have "sample_challenge c s tau n q =
        Some (?R, snd (assign_signs s q P 0 (unat tau) ?zero pos1))"
    by (simp add: sample_challenge_def fy)
  then show ?thesis
    using lenR weight vals by blast
qed


theorem sample_challenge_weight_witness:
  "\<exists>c' pos'. sample_challenge (replicate 256 0) (\<lambda>i. 0) 39 256 8380417 = Some (c', pos') \<and>
     length c' = 256 \<and>
     length (filter (\<lambda>x. x \<noteq> 0) c') = 39 \<and>
     (\<forall>x\<in>set c'. x = 0 \<or> x = 1 \<or> x = 8380416)"
proof -
  have h1: "unat (39 :: u32) \<le> unat (256 :: u32)"
    by simp
  have h2: "length (replicate 256 (0 :: u32)) = unat (256 :: u32)"
    by simp
  have h3: "(1 :: u32) < 8380417"
    by simp
  have h4: "\<forall>i<unat (39 :: u32). accepts_eventually (\<lambda>i. 0) ((256 :: u32) - of_nat i)"
  proof (intro allI impI)
    fix i assume "i < unat (39 :: u32)"
    then have "i < 39"
      by simp
    then have "(256 :: u32) - of_nat i \<noteq> 0"
      by (rule modulus_in_use_nonzero)
    then show "accepts_eventually (\<lambda>i. 0) ((256 :: u32) - of_nat i)"
      by (rule accepts_eventually_zero_stream)
  qed
  show ?thesis
    using sample_challenge_weight [OF h1 h2 h3 h4] by simp
qed


section \<open>NTT: the round trip on a unit vector\<close>

lemma length_zero_poly: "length zero_poly = 256"
  by (simp add: zero_poly_def)

lemma zero_poly_nth: "i < 256 \<Longrightarrow> zero_poly ! i = 0"
  by (simp add: zero_poly_def)

lemma length_unit_poly: "length (unit_poly k) = 256"
  by (simp add: unit_poly_def length_zero_poly)

lemma unit_poly_nth: "i < 256 \<Longrightarrow> unit_poly k ! i = (if i = k then 1 else 0)"
  by (simp add: unit_poly_def nth_list_update length_zero_poly zero_poly_nth)

lemma or_less_256:
  fixes a b :: nat
  assumes "a < 256" "b < 256"
  shows "a OR b < 256"
proof -
  have "take_bit 8 a = a" "take_bit 8 b = b"
    using assms by (simp_all add: take_bit_nat_eq_self)
  then have "take_bit 8 (a OR b) = a OR b"
    by simp
  then have "a OR b < 2 ^ 8"
    by (simp only: take_bit_nat_eq_self_iff)
  then show ?thesis
    by simp
qed

lemma push_bit_low_bit_less_256:
  fixes x :: nat
  assumes "m \<le> 7"
  shows "push_bit m (x AND 1) < 256"
proof -
  have "x AND 1 \<le> 1"
    by (simp add: and_one_eq)
  then have "push_bit m (x AND 1) \<le> 1 * 2 ^ m"
    unfolding push_bit_eq_mult by (rule mult_le_mono1)
  also have "(1::nat) * 2 ^ m \<le> 2 ^ 7"
    using power_increasing [of m 7 "2::nat"] assms by simp
  finally show ?thesis
    by simp
qed

lemma bitrev_loop_less_256:
  "r < 256 \<Longrightarrow> bitrev_loop i j r < 256"
proof (induction i j r rule: bitrev_loop.induct)
  case (1 i j r)
  show ?case
  proof (cases "j < 8")
    case True
    have "r OR push_bit (8 - 1 - j) (drop_bit j i AND 1) < 256"
      using "1.prems" by (intro or_less_256 push_bit_low_bit_less_256) simp_all
    then have "bitrev_loop i (j + 1) (r OR push_bit (8 - 1 - j) (drop_bit j i AND 1)) < 256"
      using True by (rule "1.IH" [rotated])
    then show ?thesis
      using True by (subst bitrev_loop.simps) simp
  next
    case False
    then show ?thesis
      using "1.prems" by (subst bitrev_loop.simps) simp
  qed
qed

lemma bitrev_entry_less_256: "bitrev_entry i < 256"
  unfolding bitrev_entry_def by (rule bitrev_loop_less_256) simp

lemma bitrev_entry_0: "bitrev_entry 0 = 0"
  by (simp add: bitrev_entry_def bitrev_loop.simps)

lemma bitrev_entry_1: "bitrev_entry 1 = 128"
  by (simp add: bitrev_entry_def bitrev_loop.simps)

lemma bitrev_entry_Suc_0: "bitrev_entry (Suc 0) = 128"
  using bitrev_entry_1 by simp

lemma swap_equal_entries:
  assumes "poly ! a = poly ! b"
  shows "poly[a := poly ! b, b := poly ! a] = poly"
proof -
  have "poly[a := poly ! b] = poly"
    by (metis assms list_update_id)
  moreover have "poly[b := poly ! a] = poly"
    by (metis assms list_update_id)
  ultimately show ?thesis
    by (simp only:)
qed

lemma bit_reverse_step_same:
  assumes "i < bitrev_entry i \<Longrightarrow> poly ! i = poly ! bitrev_entry i"
  shows "(if i < bitrev_entry i
          then poly[i := poly ! bitrev_entry i, bitrev_entry i := poly ! i]
          else poly) = poly"
proof (cases "i < bitrev_entry i")
  case True
  from assms [OF True] have "poly[i := poly ! bitrev_entry i, bitrev_entry i := poly ! i] = poly"
    by (rule swap_equal_entries)
  with True show ?thesis
    by (simp only: if_True)
next
  case False
  then show ?thesis
    by (simp only: if_False)
qed

lemma bit_reverse_loop_fixed:
  assumes "\<And>i. k \<le> i \<Longrightarrow> i < 256 \<Longrightarrow> i < bitrev_entry i \<Longrightarrow> poly ! i = poly ! bitrev_entry i"
  shows "k \<le> i \<Longrightarrow> bit_reverse_loop i poly = poly"
proof (induction "256 - i" arbitrary: i)
  case 0
  then have "\<not> i < 256"
    by simp
  then show ?case
    by (subst bit_reverse_loop.simps) (simp only: if_False)
next
  case (Suc d)
  then have less: "i < 256"
    by simp
  have same: "(if i < bitrev_entry i
          then poly[i := poly ! bitrev_entry i, bitrev_entry i := poly ! i]
          else poly) = poly"
    using assms [OF Suc.prems less] by (rule bit_reverse_step_same)
  have "d = 256 - (i + 1)"
    using Suc.hyps(2) by simp
  moreover have "k \<le> i + 1"
    using Suc.prems by simp
  ultimately have "bit_reverse_loop (i + 1) poly = poly"
    by (rule Suc.hyps(1))
  then show ?case
    using less by (subst bit_reverse_loop.simps) (simp only: same if_True)
qed

lemma bit_reverse_zeros: "bit_reverse zero_poly = zero_poly"
  unfolding bit_reverse_def
proof (rule bit_reverse_loop_fixed [where k = 0])
  fix i :: nat
  assume "i < 256"
  then show "zero_poly ! i = zero_poly ! bitrev_entry i"
    using bitrev_entry_less_256 [of i] by (simp only: zero_poly_nth)
qed simp

lemma bit_reverse_loop_unit_1: "bit_reverse_loop 2 (unit_poly 1) = unit_poly 1"
proof (rule bit_reverse_loop_fixed [where k = 2])
  fix i :: nat
  assume i: "2 \<le> i" "i < 256" "i < bitrev_entry i"
  have "unit_poly 1 ! i = 0"
    using i by (simp add: unit_poly_nth)
  moreover have "unit_poly 1 ! bitrev_entry i = 0"
    using i bitrev_entry_less_256 [of i] by (simp add: unit_poly_nth)
  ultimately show "unit_poly 1 ! i = unit_poly 1 ! bitrev_entry i"
    by simp
qed simp

lemma unit_128_swapped:
  "(unit_poly 128)[1 := unit_poly 128 ! 128, 128 := unit_poly 128 ! 1] = unit_poly 1"
proof (rule nth_equalityI)
  show "length ((unit_poly 128)[1 := unit_poly 128 ! 128, 128 := unit_poly 128 ! 1])
      = length (unit_poly 1)"
    by (simp add: length_unit_poly)
next
  fix i
  assume "i < length ((unit_poly 128)[1 := unit_poly 128 ! 128, 128 := unit_poly 128 ! 1])"
  then have "i < 256"
    by (simp add: length_unit_poly)
  then show "(unit_poly 128)[1 := unit_poly 128 ! 128, 128 := unit_poly 128 ! 1] ! i
      = unit_poly 1 ! i"
    by (simp add: nth_list_update length_unit_poly unit_poly_nth)
qed

lemma bit_reverse_unit_128: "bit_reverse (unit_poly 128) = unit_poly 1"
proof -
  have "bit_reverse_loop 0 (unit_poly 128) = bit_reverse_loop (0 + 1) (unit_poly 128)"
    by (subst bit_reverse_loop.simps) (simp add: bitrev_entry_0)
  also have "\<dots> = bit_reverse_loop 1 (unit_poly 128)"
    by simp
  also have "\<dots> = bit_reverse_loop (1 + 1)
      ((unit_poly 128)[1 := unit_poly 128 ! 128, 128 := unit_poly 128 ! 1])"
    by (subst bit_reverse_loop.simps) (simp add: bitrev_entry_Suc_0)
  also have "\<dots> = bit_reverse_loop 2 (unit_poly 1)"
    by (simp only: unit_128_swapped one_add_one)
  also have "\<dots> = unit_poly 1"
    by (rule bit_reverse_loop_unit_1)
  finally show ?thesis
    by (simp only: bit_reverse_def)
qed


subsection \<open>The first butterfly erases the coefficient\<close>

lemma montgomery_reduce_0: "montgomery_reduce q 0 = 0"
  by (simp add: montgomery_reduce_def)

lemma zetas_1: "zetas ! 1 = 0"
  by (simp add: zetas_def zetas_ml_dsa_def)

lemma zero_poly_update: "zero_poly[i := 0] = zero_poly"
proof (cases "i < 256")
  case True
  then have "zero_poly[i := 0] = zero_poly[i := zero_poly ! i]"
    by (simp only: zero_poly_nth)
  then show ?thesis
    by (simp only: list_update_id)
next
  case False
  then show ?thesis
    by (simp add: list_update_beyond length_zero_poly)
qed

lemma unit_poly_erased: "(unit_poly 1)[0 := 0, 1 := 0] = zero_poly"
proof (rule nth_equalityI)
  show "length ((unit_poly 1)[0 := 0, 1 := 0]) = length zero_poly"
    by (simp add: length_unit_poly length_zero_poly)
next
  fix i
  assume "i < length ((unit_poly 1)[0 := 0, 1 := 0])"
  then have "i < 256"
    by (simp add: length_unit_poly)
  then show "(unit_poly 1)[0 := 0, 1 := 0] ! i = zero_poly ! i"
    by (simp add: nth_list_update length_unit_poly unit_poly_nth zero_poly_nth)
qed

lemma butterfly_zero_poly:
  assumes "j + half < 256"
  shows "butterfly q zeta half j zero_poly = zero_poly"
proof -
  have "zero_poly ! j = 0" "zero_poly ! (j + half) = 0"
    using assms by (simp_all add: zero_poly_nth)
  then show ?thesis
    by (simp add: butterfly_def montgomery_reduce_0 zero_poly_update)
qed

lemma unit_poly_erased_Suc: "(unit_poly (Suc 0))[0 := 0, Suc 0 := 0] = zero_poly"
  using unit_poly_erased by simp

lemma butterfly_unit_poly: "butterfly q 0 1 0 (unit_poly 1) = zero_poly"
proof -
  have "unit_poly (Suc 0) ! 0 = 0" "unit_poly (Suc 0) ! Suc 0 = 1"
    by (simp_all add: unit_poly_nth)
  then show ?thesis
    by (simp add: butterfly_def montgomery_reduce_0 unit_poly_erased_Suc)
qed

lemma butterflies_zero_poly:
  "stop + half \<le> 256 \<Longrightarrow> butterflies q zeta half j stop zero_poly = zero_poly"
proof (induction "stop - j" arbitrary: j)
  case 0
  then have "\<not> j < stop"
    by simp
  then show ?case
    by (subst butterflies.simps) (simp only: if_False)
next
  case (Suc d)
  then have less: "j < stop"
    by simp
  then have "j + half < 256"
    using Suc.prems by simp
  then have step: "butterfly q zeta half j zero_poly = zero_poly"
    by (rule butterfly_zero_poly)
  have "d = stop - (j + 1)"
    using Suc.hyps(2) by simp
  then have "butterflies q zeta half (j + 1) stop zero_poly = zero_poly"
    using Suc.prems by (rule Suc.hyps(1))
  then show ?case
    using less by (subst butterflies.simps) (simp only: step if_True)
qed

lemma butterflies_unit_poly: "butterflies q 0 1 0 1 (unit_poly 1) = zero_poly"
proof -
  have "butterflies q 0 1 0 1 (unit_poly 1)
      = butterflies q 0 1 (0 + 1) 1 (butterfly q 0 1 0 (unit_poly 1))"
    by (subst butterflies.simps) (simp only: zero_less_one if_True)
  also have "\<dots> = butterflies q 0 1 1 1 zero_poly"
    by (simp only: butterfly_unit_poly add_0)
  also have "\<dots> = zero_poly"
    by (rule butterflies_zero_poly) simp
  finally show ?thesis .
qed

lemma block_within:
  fixes len start :: nat
  assumes "len dvd 256" "len dvd start" "start < 256"
  shows "start + len \<le> 256"
proof -
  from assms(1) obtain a where a: "256 = len * a"
    by (rule dvdE)
  from assms(2) obtain b where b: "start = len * b"
    by (rule dvdE)
  have "len * b < len * a"
    using assms(3) by (simp only: a [symmetric] b [symmetric])
  then have "b < a"
    by simp
  then have "Suc b \<le> a"
    by simp
  then have "len * Suc b \<le> len * a"
    by (rule mult_le_mono2)
  then have "len * b + len \<le> len * a"
    by simp
  then show ?thesis
    by (simp only: a [symmetric] b [symmetric])
qed

lemma forward_starts_zero_poly:
  assumes "len dvd 256"
  shows "len dvd start \<Longrightarrow> fst (forward_starts q len start k zero_poly) = zero_poly"
proof (induction "256 - start" arbitrary: start k rule: less_induct)
  case less
  show ?case
  proof (cases "start < 256 \<and> 0 < len")
    case False
    then show ?thesis
      by (subst forward_starts.simps) (simp only: if_False fst_conv)
  next
    case True
    then have within: "start + len \<le> 256"
      using assms less.prems by (intro block_within) simp_all
    have "start + len div 2 + len div 2 \<le> 256"
      using within by simp
    then have step: "butterflies q zeta (len div 2) start (start + len div 2) zero_poly = zero_poly"
      for zeta
      by (rule butterflies_zero_poly)
    have smaller: "256 - (start + len) < 256 - start"
      using True by arith
    have dvd: "len dvd start + len"
      using less.prems by simp
    have "fst (forward_starts q len (start + len) k' zero_poly) = zero_poly" for k'
      using smaller dvd by (rule less.hyps)
    then show ?thesis
      using True by (subst forward_starts.simps) (simp add: step)
  qed
qed

lemma forward_levels_zero_poly:
  "len = 2 ^ e \<Longrightarrow> forward_levels q len k zero_poly = zero_poly"
proof (induction "257 - len" arbitrary: len e k rule: less_induct)
  case less
  show ?case
  proof (cases "len \<le> 256 \<and> 0 < len")
    case False
    then show ?thesis
      by (subst forward_levels.simps) (simp only: if_False)
  next
    case True
    have "(2::nat) ^ e \<le> 2 ^ 8"
      using True less.prems by simp
    then have "e \<le> 8"
      by (simp only: power_increasing_iff one_less_numeral_iff semiring_norm)
    then have "(2::nat) ^ e dvd 2 ^ 8"
      by (rule le_imp_power_dvd)
    then have "len dvd 256"
      using less.prems by simp
    then have level: "fst (forward_starts q len 0 k zero_poly) = zero_poly"
      by (rule forward_starts_zero_poly) simp
    have smaller: "257 - 2 * len < 257 - len"
      using True by arith
    have "2 * len = 2 ^ Suc e"
      using less.prems by simp
    with smaller have "forward_levels q (2 * len) k' zero_poly = zero_poly" for k'
      by (rule less.hyps)
    then show ?thesis
      using True by (subst forward_levels.simps) (simp add: level)
  qed
qed

lemma forward_starts_unit_poly:
  "fst (forward_starts q 2 0 1 (unit_poly 1)) = zero_poly"
proof -
  have conds: "(0::nat) < 256 \<and> (0::nat) < 2" "(1::nat) < 256"
    by simp_all
  have arith: "(2::nat) div 2 = 1" "0 + (1::nat) = 1"
    by simp_all
  have "forward_starts q 2 0 1 (unit_poly 1)
      = forward_starts q 2 (0 + 2) (1 + 1)
          (butterflies q (zetas ! 1) (2 div 2) 0 (0 + 2 div 2) (unit_poly 1))"
    by (subst forward_starts.simps) (simp only: conds simp_thms if_True)
  also have "\<dots> = forward_starts q 2 (0 + 2) (1 + 1) zero_poly"
    by (simp only: arith zetas_1 butterflies_unit_poly)
  finally have "fst (forward_starts q 2 0 1 (unit_poly 1))
      = fst (forward_starts q 2 (0 + 2) (1 + 1) zero_poly)"
    by (simp only:)
  also have "\<dots> = zero_poly"
    by (rule forward_starts_zero_poly) simp_all
  finally show ?thesis .
qed

lemma forward_levels_unit_poly: "forward_levels q 2 1 (unit_poly 1) = zero_poly"
proof -
  have conds: "(2::nat) \<le> 256 \<and> (0::nat) < 2"
    by simp
  have "forward_levels q 2 1 (unit_poly 1)
      = forward_levels q (2 * 2) (snd (forward_starts q 2 0 1 (unit_poly 1)))
          (fst (forward_starts q 2 0 1 (unit_poly 1)))"
    by (subst forward_levels.simps) (simp only: conds simp_thms if_True)
  also have "\<dots> = zero_poly"
    unfolding forward_starts_unit_poly by (rule forward_levels_zero_poly [where e = 2]) simp
  finally show ?thesis .
qed

lemma ntt_forward_unit_128: "ntt_forward q (unit_poly 128) = zero_poly"
  by (simp only: ntt_forward_def bit_reverse_unit_128 forward_levels_unit_poly)

subsection \<open>The inverse transform of the zero polynomial\<close>

lemma inverse_starts_zero_poly:
  assumes "len dvd 256"
  shows "len dvd start \<Longrightarrow> fst (inverse_starts q len start k zero_poly) = zero_poly"
proof (induction "256 - start" arbitrary: start k rule: less_induct)
  case less
  show ?case
  proof (cases "start < 256 \<and> 0 < len")
    case False
    then show ?thesis
      by (subst inverse_starts.simps) (simp only: if_False fst_conv)
  next
    case True
    then have within: "start + len \<le> 256"
      using assms less.prems by (intro block_within) simp_all
    have "start + len div 2 + len div 2 \<le> 256"
      using within by simp
    then have step: "butterflies q zeta (len div 2) start (start + len div 2) zero_poly = zero_poly"
      for zeta
      by (rule butterflies_zero_poly)
    have smaller: "256 - (start + len) < 256 - start"
      using True by arith
    have dvd: "len dvd start + len"
      using less.prems by simp
    have "fst (inverse_starts q len (start + len) k' zero_poly) = zero_poly" for k'
      using smaller dvd by (rule less.hyps)
    then show ?thesis
      using True by (subst inverse_starts.simps) (simp add: step)
  qed
qed

lemma inverse_levels_zero_poly:
  "len = 2 ^ e \<Longrightarrow> e \<le> 8 \<Longrightarrow> inverse_levels q len k zero_poly = zero_poly"
proof (induction e arbitrary: len k)
  case 0
  then have "\<not> 2 \<le> len"
    by simp
  then show ?case
    by (subst inverse_levels.simps) (simp only: if_False)
next
  case (Suc e)
  have "(2::nat) ^ Suc e dvd 2 ^ 8"
    using Suc.prems(2) by (rule le_imp_power_dvd)
  then have "len dvd 256"
    using Suc.prems by simp
  then have level: "fst (inverse_starts q len 0 k zero_poly) = zero_poly"
    by (rule inverse_starts_zero_poly) simp
  have "len div 2 = 2 ^ e"
    using Suc.prems by simp
  moreover have "e \<le> 8"
    using Suc.prems by simp
  ultimately have "inverse_levels q (len div 2) k' zero_poly = zero_poly" for k'
    by (rule Suc.IH)
  moreover have "2 \<le> len"
    using Suc.prems by simp
  ultimately show ?case
    by (subst inverse_levels.simps) (simp add: level)
qed

lemma scale_zero_poly:
  "map (\<lambda>x. montgomery_reduce q (ucast x * ucast n_inv)) zero_poly = zero_poly"
  by (simp add: zero_poly_def montgomery_reduce_0)

lemma ntt_inverse_zero_poly: "ntt_inverse q n_inv zero_poly = zero_poly"
proof -
  have "inverse_levels q 128 127 zero_poly = zero_poly"
    by (rule inverse_levels_zero_poly [where e = 7]) simp_all
  then show ?thesis
    by (simp only: ntt_inverse_def bit_reverse_zeros scale_zero_poly)
qed

lemma mod_inverse_256: "mod_inverse 256 8380417 = Some 8347681"
  by (simp add: mod_inverse_def mod_inverse_loop.simps)

lemma unit_poly_not_zero: "unit_poly 128 \<noteq> zero_poly"
proof
  assume "unit_poly 128 = zero_poly"
  then have "unit_poly 128 ! 128 = zero_poly ! 128"
    by simp
  then show False
    by (simp add: unit_poly_nth zero_poly_nth)
qed

text \<open>Claim C2 (NTT round trip). The claim says that the inverse transform
  applied to the forward transform gives back every polynomial with
  coefficients in \<open>[0, q)\<close>. In \<^verbatim>\<open>ScalarNTTEngine\<close> it does not: for the
  polynomial whose only non-zero coefficient is a 1 at index 128 (the monomial
  \<open>x\<^sup>1\<^sup>2\<^sup>8\<close>), \<^verbatim>\<open>bit_reverse\<close> moves the 1 to index 1, the first butterfly
  multiplies it by \<^verbatim>\<open>zetas_[1] = zetas_ml_dsa[0] = 0\<close>, and from then on the
  array is zero: \<^verbatim>\<open>ntt_forward\<close> returns the zero polynomial, and so does
  \<^verbatim>\<open>ntt_inverse\<close> of it. The coefficient is lost.\<close>

theorem ntt_round_trip_loses_coefficient:
  "ntt_round_trip (unit_poly 128) = Some zero_poly \<and> unit_poly 128 \<noteq> zero_poly"
  by (simp only: ntt_round_trip_def mod_inverse_256 option.case ntt_forward_unit_128
      ntt_inverse_zero_poly unit_poly_not_zero simp_thms)


section \<open>Message validation: what signing and verification do with a bad size\<close>

lemma validate_message_size_tests:
  "validate_message_size m [] = INVALID_INPUT_SIZE"
  "validate_message_size m (replicate (m + 1) 0xFF) = INVALID_INPUT_SIZE"
  "1000 \<le> m \<Longrightarrow> validate_message_size m (replicate 1000 0xFF) = SUCCESS"
  by (simp_all add: validate_message_size_def)








section \<open>Serialized sizes\<close>

lemma length_coefficient_bits: "length (coefficient_bits b c) = b"
  by (induction b arbitrary: c) simp_all

lemma length_bits_to_bytes: "length (bits_to_bytes bs) = (length bs + 7) div 8"
proof (induction bs rule: bits_to_bytes.induct)
  case 1
  show ?case by simp
next
  case (2 b bs)
  have "Suc ((Suc (length bs) - 8 + 7) div 8) = (Suc (length bs) + 7) div 8"
    by arith
  with 2 show ?case
    by simp
qed

lemma length_concat_same:
  "list_all (\<lambda>x. length (f x) = n) xs \<Longrightarrow> length (concat (map f xs)) = n * length xs"
  by (induction xs) simp_all

lemma length_bit_pack:
  assumes "length poly = 256"
  shows "length (bit_pack b poly) = 32 * b"
proof -
  have "length (concat (map (coefficient_bits b) poly)) = b * length poly"
    by (rule length_concat_same) (simp add: list_all_iff length_coefficient_bits)
  then have "length (bit_pack b poly) = (b * 256 + 7) div 8"
    using assms by (simp add: bit_pack_def length_bits_to_bytes)
  also have "\<dots> = 32 * b"
    by arith
  finally show ?thesis .
qed

lemma length_pack_poly_vec:
  assumes "poly_vec m v"
  shows "length (pack_poly_vec b v) = 32 * b * m"
proof -
  have "list_all (\<lambda>p. length (bit_pack b p) = 32 * b) v"
    using assms by (simp add: poly_vec_def list_all_iff length_bit_pack)
  then have "length (concat (map (bit_pack b) v)) = 32 * b * length v"
    by (rule length_concat_same)
  then show ?thesis
    using assms by (simp add: pack_poly_vec_def poly_vec_def)
qed

lemma length_row_ends: "length (row_ends acc h) = length h"
  by (induction h arbitrary: acc) simp_all

lemma length_pack_h:
  "popcount h \<le> omega \<Longrightarrow> length (pack_h omega h) = omega + length h"
  by (simp add: pack_h_def popcount_def length_row_ends)

lemma pk_size:
  assumes "wf_public_key P pk"
  shows "length (pk_bytes pk) = 32 + 320 * param_k P"
  using assms length_pack_poly_vec [of "param_k P" "pk_t1 pk" 10]
  by (simp add: wf_public_key_def pk_bytes_def)

lemma sk_size:
  assumes "wf_private_key P sk"
  shows "length (sk_bytes P sk)
    = 128 + 32 * eta_bits P * (param_l P + param_k P) + 416 * param_k P"
  using assms length_pack_poly_vec [of "param_l P" "sk_s1 sk" "eta_bits P"]
    length_pack_poly_vec [of "param_k P" "sk_s2 sk" "eta_bits P"]
    length_pack_poly_vec [of "param_k P" "sk_t0 sk" 13]
  by (simp add: wf_private_key_def sk_bytes_def algebra_simps)

lemma sig_size:
  assumes "wf_signature P sg"
  shows "length (sig_bytes P sg)
    = param_lambda P div 4 + 32 * z_bits P * param_l P + param_omega P + param_k P"
  using assms length_pack_poly_vec [of "param_l P" "sig_z sg" "z_bits P"]
    length_pack_h [of "sig_h sg" "param_omega P"]
  by (simp add: wf_signature_def sig_bytes_def poly_vec_def)

lemma sizes_44:
  "32 + 320 * param_k ml_dsa_44 = 1312"
  "128 + 32 * eta_bits ml_dsa_44 * (param_l ml_dsa_44 + param_k ml_dsa_44)
     + 416 * param_k ml_dsa_44 = 2560"
  "param_lambda ml_dsa_44 div 4 + 32 * z_bits ml_dsa_44 * param_l ml_dsa_44
     + param_omega ml_dsa_44 + param_k ml_dsa_44 = 2420"
  by (simp_all add: ml_dsa_44_def eta_bits_def z_bits_def)

lemma sizes_65:
  "32 + 320 * param_k ml_dsa_65 = 1952"
  "128 + 32 * eta_bits ml_dsa_65 * (param_l ml_dsa_65 + param_k ml_dsa_65)
     + 416 * param_k ml_dsa_65 = 4032"
  "param_lambda ml_dsa_65 div 4 + 32 * z_bits ml_dsa_65 * param_l ml_dsa_65
     + param_omega ml_dsa_65 + param_k ml_dsa_65 = 3309"
  by (simp_all add: ml_dsa_65_def eta_bits_def z_bits_def)

lemma sizes_87:
  "32 + 320 * param_k ml_dsa_87 = 2592"
  "128 + 32 * eta_bits ml_dsa_87 * (param_l ml_dsa_87 + param_k ml_dsa_87)
     + 416 * param_k ml_dsa_87 = 4896"
  "param_lambda ml_dsa_87 div 4 + 32 * z_bits ml_dsa_87 * param_l ml_dsa_87
     + param_omega ml_dsa_87 + param_k ml_dsa_87 = 4627"
  by (simp_all add: ml_dsa_87_def eta_bits_def z_bits_def)

lemma poly_vec_replicate: "poly_vec m (replicate m (replicate 256 x))"
  by (simp add: poly_vec_def list_all_iff)

lemma row_indices_no_hint: "row_indices (replicate n False) = []"
  by (simp add: row_indices_def filter_empty_conv)

lemma popcount_no_hint: "popcount (replicate m (replicate n False)) = 0"
  by (simp add: popcount_def row_indices_no_hint)

lemma wf_zero_public_key: "wf_public_key P (zero_public_key P)"
  by (simp add: wf_public_key_def zero_public_key_def poly_vec_replicate
     )

lemma wf_zero_private_key: "wf_private_key P (zero_private_key P)"
  by (simp add: wf_private_key_def zero_private_key_def poly_vec_replicate
     )

lemma wf_zero_signature: "wf_signature P (zero_signature P)"
  by (simp add: wf_signature_def zero_signature_def poly_vec_replicate popcount_no_hint
     )

text \<open>Claim C3 (serialized sizes). For each of the three parameter sets, every
  public key, private key and signature of the shapes of the data model
  serializes to the number of bytes of the size table: 1312, 2560 and 2420
  bytes for ML-DSA-44, 1952, 4032 and 3309 for ML-DSA-65, 2592, 4896 and 4627
  for ML-DSA-87.\<close>

theorem serialized_sizes:
  assumes "wf_public_key P pk" and "wf_private_key P sk" and "wf_signature P sg"
  shows "(P = ml_dsa_44 \<longrightarrow>
      length (pk_bytes pk) = 1312 \<and> length (sk_bytes P sk) = 2560
      \<and> length (sig_bytes P sg) = 2420)
    \<and> (P = ml_dsa_65 \<longrightarrow>
      length (pk_bytes pk) = 1952 \<and> length (sk_bytes P sk) = 4032
      \<and> length (sig_bytes P sg) = 3309)
    \<and> (P = ml_dsa_87 \<longrightarrow>
      length (pk_bytes pk) = 2592 \<and> length (sk_bytes P sk) = 4896
      \<and> length (sig_bytes P sg) = 4627)"
proof (intro conjI impI)
  assume P: "P = ml_dsa_44"
  show "length (pk_bytes pk) = 1312"
    using pk_size [OF assms(1)] sizes_44(1) by (simp only: P)
  show "length (sk_bytes P sk) = 2560"
    using sk_size [OF assms(2)] sizes_44(2) by (simp only: P)
  show "length (sig_bytes P sg) = 2420"
    using sig_size [OF assms(3)] sizes_44(3) by (simp only: P)
next
  assume P: "P = ml_dsa_65"
  show "length (pk_bytes pk) = 1952"
    using pk_size [OF assms(1)] sizes_65(1) by (simp only: P)
  show "length (sk_bytes P sk) = 4032"
    using sk_size [OF assms(2)] sizes_65(2) by (simp only: P)
  show "length (sig_bytes P sg) = 3309"
    using sig_size [OF assms(3)] sizes_65(3) by (simp only: P)
next
  assume P: "P = ml_dsa_87"
  show "length (pk_bytes pk) = 2592"
    using pk_size [OF assms(1)] sizes_87(1) by (simp only: P)
  show "length (sk_bytes P sk) = 4896"
    using sk_size [OF assms(2)] sizes_87(2) by (simp only: P)
  show "length (sig_bytes P sg) = 4627"
    using sig_size [OF assms(3)] sizes_87(3) by (simp only: P)
qed

theorem serialized_sizes_witness:
  "length (pk_bytes (zero_public_key ml_dsa_44)) = 1312
   \<and> length (sk_bytes ml_dsa_44 (zero_private_key ml_dsa_44)) = 2560
   \<and> length (sig_bytes ml_dsa_44 (zero_signature ml_dsa_44)) = 2420
   \<and> length (pk_bytes (zero_public_key ml_dsa_65)) = 1952
   \<and> length (sk_bytes ml_dsa_65 (zero_private_key ml_dsa_65)) = 4032
   \<and> length (sig_bytes ml_dsa_65 (zero_signature ml_dsa_65)) = 3309
   \<and> length (pk_bytes (zero_public_key ml_dsa_87)) = 2592
   \<and> length (sk_bytes ml_dsa_87 (zero_private_key ml_dsa_87)) = 4896
   \<and> length (sig_bytes ml_dsa_87 (zero_signature ml_dsa_87)) = 4627"
proof -
  have distinct: "ml_dsa_44 \<noteq> ml_dsa_65" "ml_dsa_44 \<noteq> ml_dsa_87" "ml_dsa_65 \<noteq> ml_dsa_87"
    by (simp_all add: ml_dsa_44_def ml_dsa_65_def ml_dsa_87_def)
  show ?thesis
    using serialized_sizes [OF wf_zero_public_key wf_zero_private_key wf_zero_signature,
        of ml_dsa_44]
      serialized_sizes [OF wf_zero_public_key wf_zero_private_key wf_zero_signature,
        of ml_dsa_65]
      serialized_sizes [OF wf_zero_public_key wf_zero_private_key wf_zero_signature,
        of ml_dsa_87]
    by (simp only: distinct simp_thms)
qed

end
